theory Spec2Isabelle
  imports Main "HOL-Library.Sublist"
begin

section \<open>Text\<close>

text \<open>
  Page text, identifiers and URLs are lists of characters. A character is one code
  unit of a JavaScript string with a value below 256 (Basic Latin and Latin-1); on
  these the white-space class, the letter case and the percent-encoding below are those
  of the platform. \<open>\s\<close> and \<open>trim\<close> take the six ASCII blanks and the no-break space
  \<open>U+00A0\<close>; \<open>toLowerCase\<close> maps \<open>A\<close> to \<open>Z\<close> and the capital letters \<open>U+00C0\<close> to \<open>U+00DE\<close>
  (without the sign \<open>U+00D7\<close>) to their small letters and keeps every other character;
  two characters are equal under the \<open>i\<close> flag of a pattern exactly when
  \<open>toLowerCase\<close> makes them equal.
\<close>

definition dq :: char where
  "dq = CHR 0x22"

definition nl :: char where
  "nl = CHR 0x0A"

definition is_digit :: "char \<Rightarrow> bool" where
  "is_digit c = (c \<in> set ''0123456789'')"

definition is_space :: "char \<Rightarrow> bool" where
  "is_space c =
     (c \<in> set [CHR 0x09, CHR 0x0A, CHR 0x0B, CHR 0x0C, CHR 0x0D, CHR 0x20, CHR 0xA0])"

definition is_upper :: "char \<Rightarrow> bool" where
  "is_upper c = (c \<in> set ''ABCDEFGHIJKLMNOPQRSTUVWXYZ'')"

definition is_lower :: "char \<Rightarrow> bool" where
  "is_lower c = (c \<in> set ''abcdefghijklmnopqrstuvwxyz'')"

definition is_alpha :: "char \<Rightarrow> bool" where
  "is_alpha c = (is_upper c \<or> is_lower c)"

definition capitals :: string where
  "capitals =
     ''ABCDEFGHIJKLMNOPQRSTUVWXYZ'' @
     [CHR 0xC0, CHR 0xC1, CHR 0xC2, CHR 0xC3, CHR 0xC4, CHR 0xC5, CHR 0xC6,
      CHR 0xC7, CHR 0xC8, CHR 0xC9, CHR 0xCA, CHR 0xCB, CHR 0xCC, CHR 0xCD,
      CHR 0xCE, CHR 0xCF, CHR 0xD0, CHR 0xD1, CHR 0xD2, CHR 0xD3, CHR 0xD4,
      CHR 0xD5, CHR 0xD6, CHR 0xD8, CHR 0xD9, CHR 0xDA, CHR 0xDB, CHR 0xDC,
      CHR 0xDD, CHR 0xDE]"

definition smalls :: string where
  "smalls =
     ''abcdefghijklmnopqrstuvwxyz'' @
     [CHR 0xE0, CHR 0xE1, CHR 0xE2, CHR 0xE3, CHR 0xE4, CHR 0xE5, CHR 0xE6,
      CHR 0xE7, CHR 0xE8, CHR 0xE9, CHR 0xEA, CHR 0xEB, CHR 0xEC, CHR 0xED,
      CHR 0xEE, CHR 0xEF, CHR 0xF0, CHR 0xF1, CHR 0xF2, CHR 0xF3, CHR 0xF4,
      CHR 0xF5, CHR 0xF6, CHR 0xF8, CHR 0xF9, CHR 0xFA, CHR 0xFB, CHR 0xFC,
      CHR 0xFD, CHR 0xFE]"

definition lower_char :: "char \<Rightarrow> char" where
  "lower_char c = (case map_of (zip capitals smalls) c of Some l \<Rightarrow> l | None \<Rightarrow> c)"

definition toLowerCase :: "string \<Rightarrow> string" where
  "toLowerCase s = map lower_char s"

fun starts_with :: "string \<Rightarrow> string \<Rightarrow> bool" where
  "starts_with s [] = True"
| "starts_with [] (p # ps) = False"
| "starts_with (x # xs) (p # ps) = (x = p \<and> starts_with xs ps)"

text \<open>\<open>includes_str s sub\<close> is \<open>s.includes(sub)\<close>.\<close>

fun includes_str :: "string \<Rightarrow> string \<Rightarrow> bool" where
  "includes_str [] sub = (sub = [])"
| "includes_str (x # xs) sub = (starts_with (x # xs) sub \<or> includes_str xs sub)"

text \<open>\<open>join sep xs\<close> is \<open>xs.join(sep)\<close>.\<close>

fun join :: "string \<Rightarrow> string list \<Rightarrow> string" where
  "join sep [] = []"
| "join sep [x] = x"
| "join sep (x # y # ys) = x @ sep @ join sep (y # ys)"


section \<open>Regular expressions\<close>

text \<open>
  The source locates every field with a regular expression. The patterns are kept as
  data and run by one backtracking matcher, which returns every way of matching at
  the head of the text in the order in which a backtracking engine tries them:
  a greedy quantifier prefers one more iteration, a lazy one prefers to stop, an
  alternation prefers its left branch. The head of the list is the match the engine
  reports. An iteration of a starred pattern that consumes nothing is discarded, as
  the engine does. The flag \<open>ci\<close> is the \<open>i\<close> flag; it affects literals only (no
  pattern of the source combines \<open>i\<close> with a class that holds a letter).
\<close>

datatype re =
    Lit char
  | Cls "char \<Rightarrow> bool"
  | Seq re re
  | Alt re re
  | Opt re
  | Star re
  | LazyStar re
  | Grp nat re

type_synonym caps = "(nat \<times> string) list"

function ms :: "bool \<Rightarrow> re \<Rightarrow> string \<times> caps \<Rightarrow> (string \<times> caps) list" where
  "ms ci (Lit c) (s, cs) =
     (case s of
        [] \<Rightarrow> []
      | x # xs \<Rightarrow>
          if (if ci then lower_char x = lower_char c else x = c) then [(xs, cs)] else [])"
| "ms ci (Cls P) (s, cs) =
     (case s of [] \<Rightarrow> [] | x # xs \<Rightarrow> if P x then [(xs, cs)] else [])"
| "ms ci (Seq a b) st = concat (map (ms ci b) (ms ci a st))"
| "ms ci (Alt a b) st = ms ci a st @ ms ci b st"
| "ms ci (Opt a) st = ms ci a st @ [st]"
| "ms ci (Star a) (s, cs) =
     concat (map (ms ci (Star a))
       (filter (\<lambda>st'. length (fst st') < length s) (ms ci a (s, cs)))) @ [(s, cs)]"
| "ms ci (LazyStar a) (s, cs) =
     (s, cs) # concat (map (ms ci (LazyStar a))
       (filter (\<lambda>st'. length (fst st') < length s) (ms ci a (s, cs))))"
| "ms ci (Grp n a) (s, cs) =
     map (\<lambda>st'. (fst st', (n, take (length s - length (fst st')) s) # snd st'))
       (ms ci a (s, cs))"
  by pat_completeness auto
termination
  by (relation "inv_image (measure size <*lex*> measure length) (\<lambda>(ci, r, st). (r, fst st))")
     auto

text \<open>Derived forms: a literal word, \<open>r+\<close>, \<open>r{n}\<close>, \<open>r{0,n}\<close> and a sequence.\<close>

fun lits :: "string \<Rightarrow> re" where
  "lits [] = Opt (Cls (\<lambda>_. False))"
| "lits [c] = Lit c"
| "lits (c # d # cs) = Seq (Lit c) (lits (d # cs))"

definition plus :: "re \<Rightarrow> re" where
  "plus r = Seq r (Star r)"

fun times :: "nat \<Rightarrow> re \<Rightarrow> re" where
  "times 0 r = Opt (Cls (\<lambda>_. False))"
| "times (Suc 0) r = r"
| "times (Suc (Suc n)) r = Seq r (times (Suc n) r)"

fun upto :: "nat \<Rightarrow> re \<Rightarrow> re" where
  "upto 0 r = Opt (Cls (\<lambda>_. False))"
| "upto (Suc n) r = Opt (Seq r (upto n r))"

fun seqs :: "re list \<Rightarrow> re" where
  "seqs [] = Opt (Cls (\<lambda>_. False))"
| "seqs [r] = r"
| "seqs (r # q # rs) = Seq r (seqs (q # rs))"

text \<open>
  A match: the matched text (\<open>m[0]\<close>), the captured groups and the text after the
  match. \<open>group m n\<close> is \<open>m[n]\<close>, \<open>None\<close> when the group took no part.
\<close>

record rmatch =
  m_text :: string
  m_groups :: caps
  m_rest :: string

definition group :: "rmatch \<Rightarrow> nat \<Rightarrow> string option" where
  "group m n = map_of (m_groups m) n"

definition match_here :: "bool \<Rightarrow> re \<Rightarrow> string \<Rightarrow> rmatch option" where
  "match_here ci r s =
     (case ms ci r (s, []) of
        [] \<Rightarrow> None
      | st # _ \<Rightarrow>
          Some \<lparr>m_text = take (length s - length (fst st)) s, m_groups = snd st,
                m_rest = fst st\<rparr>)"

text \<open>\<open>search\<close> is \<open>s.match(r)\<close> for a pattern without the \<open>g\<close> flag: the leftmost match.\<close>

fun search :: "bool \<Rightarrow> re \<Rightarrow> string \<Rightarrow> rmatch option" where
  "search ci r [] = match_here ci r []"
| "search ci r (x # xs) =
     (case match_here ci r (x # xs) of
        Some m \<Rightarrow> Some m
      | None \<Rightarrow> search ci r xs)"

definition test :: "bool \<Rightarrow> re \<Rightarrow> string \<Rightarrow> bool" where
  "test ci r s = (search ci r s \<noteq> None)"

text \<open>
  \<open>exec_all\<close> lists the matches that repeated \<open>r.exec(s)\<close> returns for a pattern with
  the \<open>g\<close> flag, each search starting where the previous match ended. Every such
  pattern of the source begins with a literal word, so a match is never empty; the
  list ends at a match that would not advance.
\<close>

function exec_all :: "bool \<Rightarrow> re \<Rightarrow> string \<Rightarrow> rmatch list" where
  "exec_all ci r s =
     (case search ci r s of
        None \<Rightarrow> []
      | Some m \<Rightarrow>
          if length (m_rest m) < length s then m # exec_all ci r (m_rest m) else [m])"
  by pat_completeness auto
termination
  by (relation "measure (\<lambda>(ci, r, s). length s)") auto

text \<open>
  \<open>replace_all ci r rep s\<close> is \<open>s.replace(r, rep)\<close> for a pattern with the \<open>g\<close> flag and a
  replacement text without \<open>$\<close>: after an empty match the next character is copied.
\<close>

function replace_all :: "bool \<Rightarrow> re \<Rightarrow> string \<Rightarrow> string \<Rightarrow> string" where
  "replace_all ci r rep s =
     (case s of
        [] \<Rightarrow> (case match_here ci r [] of None \<Rightarrow> [] | Some m \<Rightarrow> rep)
      | x # xs \<Rightarrow>
          (case match_here ci r s of
             None \<Rightarrow> x # replace_all ci r rep xs
           | Some m \<Rightarrow>
               if length (m_rest m) < length s then rep @ replace_all ci r rep (m_rest m)
               else rep @ x # replace_all ci r rep xs))"
  by pat_completeness auto
termination
  by (relation "measure (\<lambda>(ci, r, rep, s). length s)") auto


section \<open>Configuration and constants\<close>

text \<open>
  The environment variables, after \<open>Number\<close> and \<open>String\<close>: counts and milliseconds are
  natural numbers. \<open>env_or\<close> is \<open>Number(process.env.X || d)\<close> for a variable that is unset
  or empty (\<open>None\<close>) or holds the decimal numeral of \<open>v\<close> (\<open>Some v\<close>).
\<close>

record config =
  CONCURRENCY :: nat
  DELAY :: nat
  BATCH_SIZE :: nat
  WAIT_SECONDS :: nat
  MODE :: string

definition env_or :: "nat option \<Rightarrow> nat \<Rightarrow> nat" where
  "env_or v d = (case v of None \<Rightarrow> d | Some n \<Rightarrow> n)"

definition config_of_env ::
    "nat option \<Rightarrow> nat option \<Rightarrow> nat option \<Rightarrow> nat option \<Rightarrow> string option \<Rightarrow> config" where
  "config_of_env c d b w m =
     \<lparr>CONCURRENCY = env_or c 6, DELAY = env_or d 300, BATCH_SIZE = env_or b 500,
      WAIT_SECONDS = env_or w 0,
      MODE = (case m of None \<Rightarrow> ''both'' | Some s \<Rightarrow> if s = [] then ''both'' else s)\<rparr>"

definition MAX_RETRIES :: nat where
  "MAX_RETRIES = 3"

definition BACKOFF_BASE_MS :: nat where
  "BACKOFF_BASE_MS = 2000"


section \<open>Network reads with retry\<close>

text \<open>
  A request either is rejected (no connection, the time limit of the attempt, a body
  that cannot be read) or is answered with a status and a body. A task is one call of
  \<open>handleMC\<close>; it runs its requests one after the other, so what the network does to a
  task is a function \<open>net\<close>: \<open>net k url\<close> is the answer to the request the task issues
  for \<open>url\<close> after \<open>k\<close> earlier requests. The task records what it does as a list of
  events: its requests and its sleeps. What the program prints on the console is left
  out. \<open>fetchRetry\<close> is run with a number of attempts \<open>tries\<close> that is a natural number,
  as it is at every call (\<open>MAX_RETRIES\<close>).
\<close>

datatype response = Rejected string | Replied nat string

datatype error = NetworkError string | HttpError string nat | RetryFailed string

datatype event = Fetch string | Sleep nat

type_synonym net = "nat \<Rightarrow> string \<Rightarrow> response"

fun is_fetch :: "event \<Rightarrow> bool" where
  "is_fetch (Fetch u) = True"
| "is_fetch (Sleep n) = False"

fun slept :: "event \<Rightarrow> nat" where
  "slept (Fetch u) = 0"
| "slept (Sleep n) = n"

definition requests :: "event list \<Rightarrow> nat" where
  "requests ev = length (filter is_fetch ev)"

definition waited :: "event list \<Rightarrow> nat" where
  "waited ev = sum_list (map slept ev)"

definition ok :: "nat \<Rightarrow> bool" where
  "ok status = (200 \<le> status \<and> status \<le> 299)"

definition fetchWithTimeout :: "net \<Rightarrow> string \<Rightarrow> event list \<Rightarrow> response \<times> event list" where
  "fetchWithTimeout net url ev = (net (requests ev) url, ev @ [Fetch url])"

text \<open>The body of the \<open>try\<close> block of \<open>fetchRetry\<close>: one attempt.\<close>

definition attempt :: "net \<Rightarrow> string \<Rightarrow> string \<Rightarrow> event list \<Rightarrow> (error + string) \<times> event list" where
  "attempt net url label ev =
     (case fetchWithTimeout net url ev of
        (Rejected msg, ev') \<Rightarrow> (Inl (NetworkError msg), ev')
      | (Replied status body, ev') \<Rightarrow>
          if \<not> ok status then (Inl (HttpError label status), ev') else (Inr body, ev'))"

function fetchRetry_loop ::
    "net \<Rightarrow> string \<Rightarrow> nat \<Rightarrow> string \<Rightarrow> nat \<Rightarrow> error option \<Rightarrow> event list
      \<Rightarrow> (error + string) \<times> event list" where
  "fetchRetry_loop net url tries label i lastErr ev =
     (if i < tries then
        (case attempt net url label ev of
           (Inr body, ev') \<Rightarrow> (Inr body, ev')
         | (Inl err, ev') \<Rightarrow>
             fetchRetry_loop net url tries label (i + 1) (Some err)
               (ev' @ [Sleep (BACKOFF_BASE_MS * 2 ^ i)]))
      else
        (Inl (case lastErr of Some e \<Rightarrow> e | None \<Rightarrow> RetryFailed label), ev))"
  by pat_completeness auto
termination
  by (relation "measure (\<lambda>(net, url, tries, label, i, lastErr, ev). tries - i)") auto

definition fetchRetry ::
    "net \<Rightarrow> string \<Rightarrow> nat \<Rightarrow> string \<Rightarrow> event list \<Rightarrow> (error + string) \<times> event list" where
  "fetchRetry net url tries label ev = fetchRetry_loop net url tries label 0 None ev"

text \<open>The error an answer is turned into, when it is one.\<close>

fun failure :: "string \<Rightarrow> response \<Rightarrow> error option" where
  "failure label (Rejected msg) = Some (NetworkError msg)"
| "failure label (Replied status body) =
     (if \<not> ok status then Some (HttpError label status) else None)"

text \<open>The events of \<open>k\<close> failed attempts, the first of them being attempt \<open>i\<close>.\<close>

fun failed_rounds :: "string \<Rightarrow> nat \<Rightarrow> nat \<Rightarrow> event list" where
  "failed_rounds url i 0 = []"
| "failed_rounds url i (Suc k) =
     Fetch url # Sleep (BACKOFF_BASE_MS * 2 ^ i) # failed_rounds url (Suc i) k"


section \<open>Checkpoint fields\<close>

text \<open>A field of a checkpoint line: \<open>`"${String(v).replace(/"/g,'""')}"`\<close>.\<close>

definition csv_field :: "string \<Rightarrow> string" where
  "csv_field v = [dq] @ replace_all False (Lit dq) [dq, dq] v @ [dq]"

text \<open>
  The reader of a quoted field in the usual delimited format (RFC 4180): after the
  opening quote, two quotes in a row stand for one quote and a single quote ends the
  field. The result is the field and the text after its closing quote.
\<close>

fun read_quoted_body :: "string \<Rightarrow> (string \<times> string) option" where
  "read_quoted_body [] = None"
| "read_quoted_body [c] = (if c = dq then Some ([], []) else None)"
| "read_quoted_body (c # d # s) =
     (if c = dq then
        (if d = dq then
           (case read_quoted_body s of
              None \<Rightarrow> None
            | Some (v, rest) \<Rightarrow> Some (dq # v, rest))
         else Some ([], d # s))
      else
        (case read_quoted_body (d # s) of
           None \<Rightarrow> None
         | Some (v, rest) \<Rightarrow> Some (c # v, rest)))"

definition read_quoted :: "string \<Rightarrow> (string \<times> string) option" where
  "read_quoted s =
     (case s of [] \<Rightarrow> None | c # t \<Rightarrow> if c = dq then read_quoted_body t else None)"


section \<open>Lookup URL\<close>

text \<open>
  \<open>encodeURIComponent\<close>: letters, digits and \<open>- _ . ! ~ * ' ( )\<close> are kept; every other
  character becomes the bytes of its UTF-8 form, each as \<open>%\<close> and two upper-case
  hexadecimal digits: one byte below 128, two bytes from 128 on.
\<close>

definition hex_digit :: "nat \<Rightarrow> char" where
  "hex_digit n = ''0123456789ABCDEF'' ! (n mod 16)"

definition percent :: "nat \<Rightarrow> string" where
  "percent b = [CHR ''%'', hex_digit (b div 16), hex_digit b]"

definition is_unreserved :: "char \<Rightarrow> bool" where
  "is_unreserved c = (is_alpha c \<or> is_digit c \<or> c \<in> set ''-_.!~*()'' \<or> c = CHR 0x27)"

definition encode_char :: "char \<Rightarrow> string" where
  "encode_char c =
     (let n = (of_char c :: nat)
      in if is_unreserved c then [c]
         else if n < 128 then percent n
         else percent (192 + n div 64) @ percent (128 + n mod 64))"

definition encodeURIComponent :: "string \<Rightarrow> string" where
  "encodeURIComponent s = concat (map encode_char s)"

definition snapshot_prefix :: string where
  "snapshot_prefix =
     ''https://safer.fmcsa.dot.gov/query.asp?searchtype=ANY&query_type=queryCarrierSnapshot'' @
     ''&query_param=MC_MX&query_string=''"

definition mcToSnapshotUrl :: "string \<Rightarrow> string" where
  "mcToSnapshotUrl mc =
     (let m = replace_all False (plus (Cls is_space)) [] mc
      in snapshot_prefix @ encodeURIComponent m)"

text \<open>
  \<open>new URL(href, base).href\<close> belongs to the platform and is a parameter: \<open>None\<close> when
  the constructor throws.
\<close>

type_synonym resolver = "string \<Rightarrow> string \<Rightarrow> string option"

definition absoluteUrl :: "resolver \<Rightarrow> string \<Rightarrow> string \<Rightarrow> string" where
  "absoluteUrl URL base href = (case URL href base of Some u \<Rightarrow> u | None \<Rightarrow> href)"


section \<open>Page parsing\<close>

definition trim :: "string \<Rightarrow> string" where
  "trim s = rev (dropWhile is_space (rev (dropWhile is_space s)))"

definition htmlToText :: "string \<Rightarrow> string" where
  "htmlToText s =
     (if s = [] then []
      else
        trim
          (replace_all False (plus (Cls is_space)) '' ''
            (replace_all False (lits ''&gt;'') ''>''
              (replace_all False (lits ''&lt;'') ''<''
                (replace_all False (lits ''&amp;'') ''&''
                  (replace_all False (lits ''&nbsp;'') '' ''
                    (replace_all False
                      (seqs [Lit (CHR ''<''), Star (Cls (\<lambda>c. c \<noteq> CHR ''>'')), Lit (CHR ''>'')])
                      '' '' s)))))))"

definition digit :: re where
  "digit = Cls is_digit"

text \<open>\<open>/\(?\d{3}\)?[\s\-.]*\d{3}[\s\-.]*\d{4}/\<close>\<close>

definition re_phone_any :: re where
  "re_phone_any =
     seqs [Opt (Lit (CHR ''('')), times 3 digit, Opt (Lit (CHR '')'')),
           Star (Cls (\<lambda>c. is_space c \<or> c = CHR ''-'' \<or> c = CHR ''.'')), times 3 digit,
           Star (Cls (\<lambda>c. is_space c \<or> c = CHR ''-'' \<or> c = CHR ''.'')), times 4 digit]"

definition extractPhoneAnywhere :: "string \<Rightarrow> string" where
  "extractPhoneAnywhere html =
     (case search False re_phone_any html of Some m \<Rightarrow> m_text m | None \<Rightarrow> [])"

text \<open>\<open>/\(?\d{3}\)?[\s\-]*\d{3}[\s\-]*\d{4}/\<close>\<close>

definition re_phone :: re where
  "re_phone =
     seqs [Opt (Lit (CHR ''('')), times 3 digit, Opt (Lit (CHR '')'')),
           Star (Cls (\<lambda>c. is_space c \<or> c = CHR ''-'')), times 3 digit,
           Star (Cls (\<lambda>c. is_space c \<or> c = CHR ''-'')), times 4 digit]"

text \<open>\<open>MC[-\s]?(\d{3,7})\<close>, the tail of the first three number patterns.\<close>

definition re_mc_tail :: re where
  "re_mc_tail =
     seqs [lits ''MC'', Opt (Cls (\<lambda>c. c = CHR ''-'' \<or> is_space c)),
           Grp 1 (Seq (times 3 digit) (upto 4 digit))]"

definition pats :: "re list" where
  "pats =
     [re_mc_tail,
      seqs [lits ''MC/MX/FF Number(s):'', Star (Cls is_space), re_mc_tail],
      seqs [lits ''MC/MX Number:'', Star (Cls is_space), re_mc_tail],
      seqs [lits ''MC/MX Number:'', Star (Cls is_space),
            Grp 1 (Seq (times 3 digit) (upto 4 digit))]]"

text \<open>The loop over \<open>pats\<close>: the first pattern with a non-empty group 1 wins.\<close>

fun first_mcNumber :: "re list \<Rightarrow> string \<Rightarrow> string" where
  "first_mcNumber [] html = []"
| "first_mcNumber (p # ps) html =
     (case search True p html of
        None \<Rightarrow> first_mcNumber ps html
      | Some m \<Rightarrow>
          (case group m 1 of
             None \<Rightarrow> first_mcNumber ps html
           | Some g \<Rightarrow> if g \<noteq> [] then ''MC-'' @ g else first_mcNumber ps html))"

definition find_mcNumber :: "string \<Rightarrow> string" where
  "find_mcNumber html =
     (let mcNumber = first_mcNumber pats html
      in if mcNumber = [] then
           (case search True re_mc_tail html of
              None \<Rightarrow> mcNumber
            | Some any \<Rightarrow>
                (case group any 1 of
                   None \<Rightarrow> mcNumber
                 | Some g \<Rightarrow> if g \<noteq> [] then ''MC-'' @ g else mcNumber))
         else mcNumber)"

definition quote_char :: "char \<Rightarrow> bool" where
  "quote_char c = (c = dq \<or> c = CHR 0x27)"

text \<open>
  \<open>/href=["']([^"']*(safer_xfr\.aspx|\/SMS\/safer_xfr\.aspx|\/SMS\/Carrier\/)[^"']*)["']/ig\<close>
\<close>

definition hrefRe :: re where
  "hrefRe =
     seqs [lits ''href='', Cls quote_char,
           Grp 1 (seqs [Star (Cls (\<lambda>c. \<not> quote_char c)),
                        Grp 2 (Alt (lits ''safer_xfr.aspx'')
                                (Alt (lits ''/SMS/safer_xfr.aspx'') (lits ''/SMS/Carrier/''))),
                        Star (Cls (\<lambda>c. \<not> quote_char c))]),
           Cls quote_char]"

text \<open>The \<open>while\<close> loop over the matches of \<open>hrefRe\<close>.\<close>

fun find_smsLink :: "resolver \<Rightarrow> string \<Rightarrow> rmatch list \<Rightarrow> string" where
  "find_smsLink URL url [] = []"
| "find_smsLink URL url (m # rest) =
     (case group m 1 of
        None \<Rightarrow> find_smsLink URL url rest
      | Some href \<Rightarrow>
          if href \<noteq> [] \<and> (test True (lits ''safer_xfr.aspx'') href \<or> test True (lits ''/SMS/'') href)
          then absoluteUrl URL url href
          else find_smsLink URL url rest)"

text \<open>
  \<open>/href=["']([^"']*(CarrierRegistration\.aspx|\/Carrier\/\d+\/CarrierRegistration\.aspx)[^"']*)["']/ig\<close>
\<close>

definition regRe :: re where
  "regRe =
     seqs [lits ''href='', Cls quote_char,
           Grp 1 (seqs [Star (Cls (\<lambda>c. \<not> quote_char c)),
                        Grp 2 (Alt (lits ''CarrierRegistration.aspx'')
                                (seqs [lits ''/Carrier/'', plus digit,
                                       lits ''/CarrierRegistration.aspx''])),
                        Star (Cls (\<lambda>c. \<not> quote_char c))]),
           Cls quote_char]"

text \<open>
  The \<open>while\<close> loop over the matches of \<open>regRe\<close>: it stops at the first match whose
  resolved link is not empty, and leaves the empty text otherwise. Group 1 takes part
  in every match of the pattern.
\<close>

fun find_regLink :: "resolver \<Rightarrow> string \<Rightarrow> rmatch list \<Rightarrow> string" where
  "find_regLink URL smsLink [] = []"
| "find_regLink URL smsLink (m # rest) =
     (let regLink = absoluteUrl URL smsLink (case group m 1 of Some h \<Rightarrow> h | None \<Rightarrow> [])
      in if regLink \<noteq> [] then regLink else find_regLink URL smsLink rest)"

text \<open>\<open>/<span[^>]*class=["']dat["'][^>]*>([\s\S]*?)<\/span>/ig\<close>\<close>

definition spanRe :: re where
  "spanRe =
     seqs [lits ''<span'', Star (Cls (\<lambda>c. c \<noteq> CHR ''>'')), lits ''class='', Cls quote_char,
           lits ''dat'', Cls quote_char, Star (Cls (\<lambda>c. c \<noteq> CHR ''>'')), Lit (CHR ''>''),
           Grp 1 (LazyStar (Cls (\<lambda>c. True))), lits ''</span>'']"

text \<open>The loop over the spans: the state is \<open>(foundEmail, foundPhone)\<close>.\<close>

fun scan_spans :: "rmatch list \<Rightarrow> string \<times> string \<Rightarrow> string \<times> string" where
  "scan_spans [] found = found"
| "scan_spans (s # rest) (foundEmail, foundPhone) =
     (let txt = htmlToText (case group s 1 of Some t \<Rightarrow> t | None \<Rightarrow> []);
          foundEmail' = (if foundEmail = [] \<and> CHR ''@'' \<in> set txt then txt else foundEmail);
          foundPhone' =
            (if foundPhone = [] then
               (case search False re_phone txt of Some ph \<Rightarrow> m_text ph | None \<Rightarrow> foundPhone)
             else foundPhone)
      in scan_spans rest (foundEmail', foundPhone'))"

text \<open>\<open>/([a-zA-Z0-9._%+-]+@[a-zA-Z0-9.-]+\.[a-zA-Z]{2,})/\<close>\<close>

definition re_email :: re where
  "re_email =
     Grp 1 (seqs [plus (Cls (\<lambda>c. is_alpha c \<or> is_digit c \<or> c \<in> set ''._%+-'')), Lit (CHR ''@''),
                  plus (Cls (\<lambda>c. is_alpha c \<or> is_digit c \<or> c \<in> set ''.-'')), Lit (CHR ''.''),
                  Cls is_alpha, plus (Cls is_alpha)])"

text \<open>What the registration page gives: \<open>(foundEmail, foundPhone)\<close>.\<close>

definition registration_contact :: "string \<Rightarrow> string \<times> string" where
  "registration_contact regHtml =
     (case scan_spans (exec_all True spanRe regHtml) ([], []) of
        (foundEmail, foundPhone) \<Rightarrow>
          (let foundEmail' =
                 (if foundEmail = [] then
                    (case search False re_email regHtml of
                       Some em \<Rightarrow> (case group em 1 of Some g \<Rightarrow> g | None \<Rightarrow> foundEmail)
                     | None \<Rightarrow> foundEmail)
                  else foundEmail);
               foundPhone' =
                 (if foundPhone = [] then
                    (case search False re_phone regHtml of
                       Some ph2 \<Rightarrow> m_text ph2
                     | None \<Rightarrow> foundPhone)
                  else foundPhone)
           in (foundEmail', foundPhone')))"


section \<open>Extraction\<close>

record contact =
  email :: string
  mcNumber :: string
  phone :: string
  url :: string

text \<open>
  What a task meets: the network as it answers this task, and whether the task's
  extraction is over before its timer of \<open>EXTRACT_TIMEOUT_MS\<close> runs out (\<open>timely\<close>);
  the time requests take is not part of the model, the time spent in \<open>sleep\<close> is.
\<close>

record task_env =
  net :: net
  timely :: bool

datatype 'a exit = Returned 'a | Killed

definition EXTRACT_TIMEOUT_MS :: nat where
  "EXTRACT_TIMEOUT_MS = 20000"

text \<open>The hop to the registration page, inside the inner \<open>try\<close>: \<open>(email, phone)\<close> or the error.\<close>

definition deep_fetch ::
    "resolver \<Rightarrow> net \<Rightarrow> string \<Rightarrow> string \<Rightarrow> event list
      \<Rightarrow> (error + string \<times> string) \<times> event list" where
  "deep_fetch URL nt smsLink phone0 ev =
     (case fetchRetry nt smsLink MAX_RETRIES ''sms'' ev of
        (Inl err, ev1) \<Rightarrow> (Inl err, ev1)
      | (Inr smsPage, ev1) \<Rightarrow>
          (let regLink = find_regLink URL smsLink (exec_all True regRe smsPage)
           in if regLink \<noteq> [] then
                (case fetchRetry nt regLink MAX_RETRIES ''registration'' (ev1 @ [Sleep 300]) of
                   (Inl err, ev2) \<Rightarrow> (Inl err, ev2)
                 | (Inr regPage, ev2) \<Rightarrow>
                     (case registration_contact regPage of
                        (foundEmail, foundPhone) \<Rightarrow>
                          (Inr (foundEmail, if foundPhone \<noteq> [] then foundPhone else phone0), ev2)))
              else (Inr ([], phone0), ev1)))"

text \<open>The \<open>try\<close> block of \<open>extractOne\<close>: the record, or the error it throws.\<close>

definition extract_body ::
    "resolver \<Rightarrow> net \<Rightarrow> string \<Rightarrow> event list \<Rightarrow> (error + contact) \<times> event list" where
  "extract_body URL nt lookup ev =
     (case fetchRetry nt lookup MAX_RETRIES ''snapshot'' ev of
        (Inl err, ev1) \<Rightarrow> (Inl err, ev1)
      | (Inr page, ev1) \<Rightarrow>
          (let mcNum = find_mcNumber page;
               phone0 = extractPhoneAnywhere page;
               smsLink = find_smsLink URL lookup (exec_all True hrefRe page)
           in if smsLink \<noteq> [] then
                (case deep_fetch URL nt smsLink phone0 (ev1 @ [Sleep 300]) of
                   (Inl err, ev2) \<Rightarrow>
                     (Inr \<lparr>email = [], mcNumber = mcNum, phone = phone0, url = lookup\<rparr>, ev2)
                 | (Inr (em, ph), ev2) \<Rightarrow>
                     (Inr \<lparr>email = em, mcNumber = mcNum, phone = ph, url = lookup\<rparr>, ev2))
              else (Inr \<lparr>email = [], mcNumber = mcNum, phone = phone0, url = lookup\<rparr>, ev1)))"

text \<open>
  \<open>extractOne\<close> arms a timer before its \<open>try\<close> block and clears it in \<open>finally\<close>. The
  timer's callback throws, and it runs outside the asynchronous function: no handler
  of \<open>extractOne\<close> or \<open>handleMC\<close> can catch it, so when it fires the runtime ends the
  whole process with an uncaught exception. It fires when the block is still running
  after \<open>EXTRACT_TIMEOUT_MS\<close>: certainly when the block sleeps that long, and otherwise
  when the requests are slow (\<open>timely\<close> is false). The events of a block that is cut
  short are not recorded.
\<close>

definition extractOne ::
    "resolver \<Rightarrow> task_env \<Rightarrow> string \<Rightarrow> event list \<Rightarrow> (error + contact) exit \<times> event list" where
  "extractOne URL env lookup ev =
     (case extract_body URL (net env) lookup ev of
        (r, ev') \<Rightarrow>
          if timely env \<and> waited ev' - waited ev < EXTRACT_TIMEOUT_MS then (Returned r, ev')
          else (Killed, ev))"


section \<open>One identifier\<close>

text \<open>\<open>/Power\s*Units[^0-9]*([0-9,]+)/i\<close>\<close>

definition re_power_units :: re where
  "re_power_units =
     seqs [lits ''Power'', Star (Cls is_space), lits ''Units'', Star (Cls (\<lambda>c. \<not> is_digit c)),
           Grp 1 (plus (Cls (\<lambda>c. is_digit c \<or> c = CHR '','')))]"

text \<open>
  \<open>Number\<close> on a text of decimal digits: its value, 0 for the empty text; \<open>None\<close> is \<open>NaN\<close>.
  The source applies \<open>Number\<close> to such texts only (\<open>power_units_digits\<close> below). A
  value too large for a double is rounded or infinite, never 0 and never \<open>NaN\<close>, so the
  test against 0 is the one on the exact value.
\<close>

definition digit_value :: "char \<Rightarrow> nat" where
  "digit_value c = (case map_of (zip ''0123456789'' [0, 1, 2, 3, 4, 5, 6, 7, 8, 9]) c of
                      Some n \<Rightarrow> n | None \<Rightarrow> 0)"

definition Number :: "string \<Rightarrow> nat option" where
  "Number s =
     (if list_all is_digit s then Some (foldl (\<lambda>n c. 10 * n + digit_value c) 0 s) else None)"

text \<open>The page tests of \<open>handleMC\<close>: the two markers, and \<open>puZero\<close>.\<close>

definition dead_marker :: "string \<Rightarrow> bool" where
  "dead_marker page =
     (let low = toLowerCase page
      in includes_str low ''record not found'' \<or> includes_str low ''record inactive'')"

definition puZero :: "string \<Rightarrow> bool" where
  "puZero page =
     (case search True re_power_units page of
        None \<Rightarrow> False
      | Some puMatch \<Rightarrow>
          (case Number (replace_all False (Lit (CHR '','')) []
                         (case group puMatch 1 of Some g \<Rightarrow> g | None \<Rightarrow> [])) of
             None \<Rightarrow> False
           | Some n \<Rightarrow> n = 0))"

text \<open>
  \<open>power_units_figure\<close> is \<open>puMatch[1]\<close>: what the first group of the pattern captured
  in the leftmost match, \<open>None\<close> when the pattern has no match.
\<close>

definition power_units_figure :: "string \<Rightarrow> string option" where
  "power_units_figure page =
     (case search True re_power_units page of None \<Rightarrow> None | Some m \<Rightarrow> group m 1)"

text \<open>What \<open>handleMC\<close> resolves to: \<open>{valid, url, row}\<close>, the last two optional.\<close>

record outcome =
  valid :: bool
  o_url :: "string option"
  o_row :: "contact option"

definition invalid :: outcome where
  "invalid = \<lparr>valid = False, o_url = None, o_row = None\<rparr>"

definition handleMC ::
    "config \<Rightarrow> resolver \<Rightarrow> task_env \<Rightarrow> string \<Rightarrow> outcome exit \<times> event list" where
  "handleMC cfg URL env mc =
     (let lookup = mcToSnapshotUrl mc
      in case fetchRetry (net env) lookup MAX_RETRIES ''snapshot'' [] of
           (Inl err, ev) \<Rightarrow> (Returned invalid, ev)
         | (Inr page, ev) \<Rightarrow>
             if dead_marker page then (Returned invalid, ev)
             else if puZero page then (Returned invalid, ev)
             else if MODE cfg = ''urls''
               then (Returned \<lparr>valid = True, o_url = Some lookup, o_row = None\<rparr>, ev)
             else
               (case extractOne URL env lookup ev of
                  (Killed, ev') \<Rightarrow> (Killed, ev')
                | (Returned (Inl err), ev') \<Rightarrow> (Returned invalid, ev')
                | (Returned (Inr r), ev') \<Rightarrow>
                    (Returned \<lparr>valid = True, o_url = Some lookup, o_row = Some r\<rparr>, ev')))"


section \<open>The validity rule as the specification words it\<close>

datatype verdict = Valid | Invalid

text \<open>
  A marker is present when some stretch of the text equals it up to letter case.
\<close>

fun has_marker :: "string \<Rightarrow> string \<Rightarrow> bool" where
  "has_marker [] marker = (marker = [])"
| "has_marker (x # xs) marker =
     ((length marker \<le> length (x # xs) \<and>
       map lower_char (take (length marker) (x # xs)) = map lower_char marker)
      \<or> has_marker xs marker)"

text \<open>
  The Power Units figure, said without the pattern engine. It is located at the first
  place of the text where the word \<open>Power\<close>, any white space and the word \<open>Units\<close> stand,
  up to letter case, and a digit or a comma comes later: the figure is the run of
  digits and commas that begins at the first digit after the words, and a single comma
  when no digit follows but a comma does.
\<close>

definition ci_prefix :: "string \<Rightarrow> string \<Rightarrow> string option" where
  "ci_prefix word t =
     (if length word \<le> length t \<and> map lower_char (take (length word) t) = map lower_char word
      then Some (drop (length word) t) else None)"

definition digit_or_comma :: "char \<Rightarrow> bool" where
  "digit_or_comma c = (is_digit c \<or> c = CHR '','')"

definition figure_after :: "string \<Rightarrow> string option" where
  "figure_after rest =
     (let tail = dropWhile (\<lambda>c. \<not> is_digit c) rest
      in if tail \<noteq> [] then Some (takeWhile digit_or_comma tail)
         else if CHR '','' \<in> set rest then Some '','' else None)"

definition figure_at :: "string \<Rightarrow> string option" where
  "figure_at t =
     (case ci_prefix ''Power'' t of
        None \<Rightarrow> None
      | Some t1 \<Rightarrow>
          (case ci_prefix ''Units'' (dropWhile is_space t1) of
             None \<Rightarrow> None
           | Some rest \<Rightarrow> figure_after rest))"

fun located_figure :: "string \<Rightarrow> string option" where
  "located_figure [] = None"
| "located_figure (x # xs) =
     (case figure_at (x # xs) of Some g \<Rightarrow> Some g | None \<Rightarrow> located_figure xs)"

text \<open>The value of a figure ignores its commas.\<close>

definition figure_value :: "string \<Rightarrow> nat" where
  "figure_value fig = foldl (\<lambda>n c. 10 * n + digit_value c) 0 (filter (\<lambda>c. c \<noteq> CHR '','') fig)"

definition verdict_rule :: "string \<Rightarrow> verdict" where
  "verdict_rule text =
     (if has_marker text ''record not found'' \<or> has_marker text ''record inactive'' then Invalid
      else (case located_figure text of
              Some fig \<Rightarrow> if figure_value fig = 0 then Invalid else Valid
            | None \<Rightarrow> Valid))"


section \<open>The run\<close>

text \<open>
  The world of a run: the environment of the task for the identifier at each position
  of the list, the platform's URL resolver, and the clock (\<open>iso_time k\<close> is
  \<open>new Date().toISOString()\<close> at the checkpoint after \<open>k\<close> earlier ones, \<open>epoch\<close> is the
  text of \<open>Date.now()\<close> at the end). \<open>run\<close> below starts from \<open>mcList\<close>, the lines of
  the input file after trimming, without the empty ones; a missing input file ends the
  program before anything else happens.
\<close>

record world =
  task :: "nat \<Rightarrow> task_env"
  URL_href :: resolver
  iso_time :: "nat \<Rightarrow> string"
  epoch :: string

text \<open>
  What the scheduler does, in order: a wave that has completed, with the outcome and
  the events of each of its tasks in dispatch order; a pause; a file written (its name
  inside the output directory and its content).
\<close>

datatype sched_event =
    WaveDone "(outcome \<times> event list) list"
  | Paused nat
  | Written string string

record run_state =
  rows :: "contact list"
  validUrls :: "string list"
  trace :: "sched_event list"

datatype run_result = Finished run_state | Crashed run_state

text \<open>The loop over the results of a wave.\<close>

definition push_result :: "run_state \<Rightarrow> outcome \<Rightarrow> run_state" where
  "push_result st r =
     (if valid r then
        (let st1 = (case o_url r of
                      Some u \<Rightarrow> if u \<noteq> [] then st\<lparr>validUrls := validUrls st @ [u]\<rparr> else st
                    | None \<Rightarrow> st)
         in case o_row r of Some c \<Rightarrow> st1\<lparr>rows := rows st1 @ [c]\<rparr> | None \<Rightarrow> st1)
      else st)"

text \<open>The checkpoint text and the file names.\<close>

definition headers :: "string list" where
  "headers = [''email'', ''mcNumber'', ''phone'', ''url'']"

definition field :: "contact \<Rightarrow> string \<Rightarrow> string" where
  "field r h =
     (if h = ''email'' then email r
      else if h = ''mcNumber'' then mcNumber r
      else if h = ''phone'' then phone r
      else if h = ''url'' then url r
      else [])"

definition to_csv :: "contact list \<Rightarrow> string" where
  "to_csv rs =
     join [nl] (join '','' headers # map (\<lambda>r. join '','' (map (\<lambda>h. csv_field (field r h)) headers)) rs)"

definition csv_name :: "string \<Rightarrow> string" where
  "csv_name stamp =
     ''fmcsa_batch_'' @
     replace_all False (Cls (\<lambda>c. c = CHR '':'' \<or> c = CHR ''.'')) ''-'' stamp @ ''.csv''"

definition urls_name :: "string \<Rightarrow> string" where
  "urls_name ms_text = ''fmcsa_remaining_urls_'' @ ms_text @ ''.txt''"

fun is_written :: "sched_event \<Rightarrow> bool" where
  "is_written (Written name content) = True"
| "is_written (WaveDone rs) = False"
| "is_written (Paused n) = False"

definition checkpoints :: "sched_event list \<Rightarrow> nat" where
  "checkpoints tr = length (filter is_written tr)"

text \<open>
  The inner \<open>while\<close> loop: waves of one batch. The tasks of a wave run together; each
  has its own environment, and \<open>Promise.all\<close> gives their outcomes in dispatch order.
  When the timer of a task ends the process, the run stops where it is. With
  \<open>CONCURRENCY\<close> 0 the slice is empty and this loop never ends, with \<open>BATCH_SIZE\<close> 0 the
  outer loop never ends: a run that does not return has the value \<open>None\<close>.
\<close>

definition dispatch ::
    "config \<Rightarrow> world \<Rightarrow> nat \<Rightarrow> string list \<Rightarrow> (outcome exit \<times> event list) list" where
  "dispatch cfg w i slice =
     map (\<lambda>(j, mc). handleMC cfg (URL_href w) (task w j) mc) (zip [i..<i + length slice] slice)"

fun returned :: "'a exit \<times> event list \<Rightarrow> ('a \<times> event list) option" where
  "returned (Returned a, ev) = Some (a, ev)"
| "returned (Killed, ev) = None"

definition those_returned ::
    "(outcome exit \<times> event list) list \<Rightarrow> (outcome \<times> event list) list option" where
  "those_returned ds = those (map returned ds)"

definition wave_slice :: "config \<Rightarrow> string list \<Rightarrow> nat \<Rightarrow> nat \<Rightarrow> string list" where
  "wave_slice cfg mcList end i = take (min end (i + CONCURRENCY cfg) - i) (drop i mcList)"

definition wave_step :: "config \<Rightarrow> run_state \<Rightarrow> (outcome \<times> event list) list \<Rightarrow> run_state" where
  "wave_step cfg st results =
     (foldl push_result st (map fst results))
       \<lparr>trace := trace st @ [WaveDone results, Paused (max 50 (DELAY cfg))]\<rparr>"

partial_function (option) waves ::
    "config \<Rightarrow> world \<Rightarrow> string list \<Rightarrow> nat \<Rightarrow> nat \<Rightarrow> run_state \<Rightarrow> run_result option" where
  "waves cfg w mcList end i st =
     (if i < end then
        (let slice = wave_slice cfg mcList end i
         in case those_returned (dispatch cfg w i slice) of
              None \<Rightarrow> Some (Crashed st)
            | Some results \<Rightarrow>
                waves cfg w mcList end (i + length slice) (wave_step cfg st results))
      else Some (Finished st))"

text \<open>The outer \<open>for\<close> loop: batches, each followed by a checkpoint.\<close>

definition checkpoint :: "world \<Rightarrow> run_state \<Rightarrow> run_state" where
  "checkpoint w st =
     st\<lparr>trace := trace st @
           [Written (csv_name (iso_time w (checkpoints (trace st)))) (to_csv (rows st))]\<rparr>"

definition batch_wait :: "config \<Rightarrow> string list \<Rightarrow> nat \<Rightarrow> run_state \<Rightarrow> run_state" where
  "batch_wait cfg mcList end st =
     (if 0 < WAIT_SECONDS cfg \<and> end < length mcList
      then st\<lparr>trace := trace st @ [Paused (WAIT_SECONDS cfg * 1000)]\<rparr>
      else st)"

partial_function (option) batches ::
    "config \<Rightarrow> world \<Rightarrow> string list \<Rightarrow> nat \<Rightarrow> run_state \<Rightarrow> run_result option" where
  "batches cfg w mcList start st =
     (if start < length mcList then
        (let end = min (length mcList) (start + BATCH_SIZE cfg)
         in case waves cfg w mcList end start st of
              None \<Rightarrow> None
            | Some (Crashed st1) \<Rightarrow> Some (Crashed st1)
            | Some (Finished st1) \<Rightarrow>
                batches cfg w mcList (start + BATCH_SIZE cfg)
                  (batch_wait cfg mcList end (checkpoint w st1)))
      else Some (Finished st))"

definition write_urls :: "world \<Rightarrow> run_state \<Rightarrow> run_state" where
  "write_urls w st =
     st\<lparr>trace := trace st @ [Written (urls_name (epoch w)) (join [nl] (validUrls st))]\<rparr>"

definition start_state :: run_state where
  "start_state = \<lparr>rows = [], validUrls = [], trace = []\<rparr>"

definition run :: "config \<Rightarrow> world \<Rightarrow> string list \<Rightarrow> run_result option" where
  "run cfg w mcList =
     (case batches cfg w mcList 0 start_state of
        None \<Rightarrow> None
      | Some (Crashed st) \<Rightarrow> Some (Crashed st)
      | Some (Finished st) \<Rightarrow>
          Some (Finished (if MODE cfg = ''urls'' then write_urls w st else st)))"


section \<open>Notions used in the statements\<close>

text \<open>
  The texts that are left after a greedy \<open>[P]*\<close>, in the order in which the engine
  tries them: the longest run first.
\<close>

fun peel :: "(char \<Rightarrow> bool) \<Rightarrow> string \<Rightarrow> string list" where
  "peel P [] = [[]]"
| "peel P (x # xs) = (if P x then peel P xs @ [x # xs] else [x # xs])"

text \<open>The group that \<open>([0-9,]+)\<close> captures at the head of a text, and the first in a list.\<close>

definition group_here :: "string \<Rightarrow> string option" where
  "group_here t =
     (case t of [] \<Rightarrow> None
      | x # xs \<Rightarrow> if digit_or_comma x then Some (takeWhile digit_or_comma t) else None)"

fun first_group :: "string list \<Rightarrow> string option" where
  "first_group [] = None"
| "first_group (t # ts) = (case group_here t of Some g \<Rightarrow> Some g | None \<Rightarrow> first_group ts)"

fun state_of :: "run_result \<Rightarrow> run_state" where
  "state_of (Finished st) = st"
| "state_of (Crashed st) = st"

text \<open>The accumulator that the completed waves of a trace give, merged in order.\<close>

fun merge_event :: "run_state \<Rightarrow> sched_event \<Rightarrow> run_state" where
  "merge_event st (WaveDone results) = foldl push_result st (map fst results)"
| "merge_event st (Paused n) = st"
| "merge_event st (Written name content) = st"

definition merged :: "sched_event list \<Rightarrow> run_state" where
  "merged tr = foldl merge_event start_state tr"

text \<open>
  An identifier passes when its lookup page is fetched within the retries and the
  validity rule gives \<open>Valid\<close>.
\<close>

definition passes :: "task_env \<Rightarrow> string \<Rightarrow> bool" where
  "passes env mc =
     (case fetchRetry (net env) (mcToSnapshotUrl mc) MAX_RETRIES ''snapshot'' [] of
        (Inl err, ev) \<Rightarrow> False
      | (Inr page, ev) \<Rightarrow> verdict_rule page = Valid)"

text \<open>The lookup URLs of the identifiers that pass, among the first \<open>k\<close> of the list.\<close>

definition valid_lookups :: "world \<Rightarrow> string list \<Rightarrow> nat \<Rightarrow> string list" where
  "valid_lookups w mcList k =
     concat (map (\<lambda>(j, mc). if passes (task w j) mc then [mcToSnapshotUrl mc] else [])
              (zip [0..<k] (take k mcList)))"

text \<open>What the merge of one outcome appends to \<open>rows\<close> and to \<open>validUrls\<close>.\<close>

definition out_rows :: "outcome \<Rightarrow> contact list" where
  "out_rows r = (if valid r then (case o_row r of Some c \<Rightarrow> [c] | None \<Rightarrow> []) else [])"

definition out_urls :: "outcome \<Rightarrow> string list" where
  "out_urls r =
     (if valid r then (case o_url r of Some u \<Rightarrow> if u \<noteq> [] then [u] else [] | None \<Rightarrow> [])
      else [])"

fun wave_rows :: "sched_event \<Rightarrow> contact list" where
  "wave_rows (WaveDone results) = concat (map out_rows (map fst results))"
| "wave_rows (Paused n) = []"
| "wave_rows (Written name content) = []"

fun wave_urls :: "sched_event \<Rightarrow> string list" where
  "wave_urls (WaveDone results) = concat (map out_urls (map fst results))"
| "wave_urls (Paused n) = []"
| "wave_urls (Written name content) = []"

text \<open>
  Properties of a state of the run that every step keeps: the accumulator is what
  the waves of the trace give; every file written so far is a checkpoint of the
  rows accumulated before it, named after the clock; every wave is followed by the
  pause between waves; every record and every URL comes from an identifier of the
  list that passes.
\<close>

definition accumulated :: "run_state \<Rightarrow> bool" where
  "accumulated st =
     (rows st = rows (merged (trace st)) \<and> validUrls st = validUrls (merged (trace st)))"

definition checkpoints_cumulative :: "world \<Rightarrow> sched_event list \<Rightarrow> bool" where
  "checkpoints_cumulative w tr =
     (\<forall>k<length tr. \<forall>name content. tr ! k = Written name content \<longrightarrow>
        name = csv_name (iso_time w (checkpoints (take k tr))) \<and>
        content = to_csv (rows (merged (take k tr))))"

definition paced :: "config \<Rightarrow> sched_event list \<Rightarrow> bool" where
  "paced cfg tr =
     (\<forall>k<length tr. \<forall>rs. tr ! k = WaveDone rs \<longrightarrow>
        Suc k < length tr \<and> tr ! Suc k = Paused (max 50 (DELAY cfg)))"

definition from_passing :: "world \<Rightarrow> string list \<Rightarrow> run_state \<Rightarrow> bool" where
  "from_passing w mcList st =
     ((\<forall>c \<in> set (rows st). \<exists>j<length mcList.
          passes (task w j) (mcList ! j) \<and> url c = mcToSnapshotUrl (mcList ! j)) \<and>
      (\<forall>u \<in> set (validUrls st). \<exists>j<length mcList.
          passes (task w j) (mcList ! j) \<and> u = mcToSnapshotUrl (mcList ! j)))"

definition run_inv :: "config \<Rightarrow> world \<Rightarrow> string list \<Rightarrow> run_state \<Rightarrow> bool" where
  "run_inv cfg w mcList st =
     (accumulated st \<and> checkpoints_cumulative w (trace st) \<and> paced cfg (trace st) \<and>
      from_passing w mcList st)"

text \<open>
  What the task for the identifier at position \<open>j\<close> of the list contributes to \<open>rows\<close>
  and to \<open>validUrls\<close>: what the merge of its outcome appends, and nothing when its timer
  ends the process. \<open>all_rows cfg w mcList k\<close> are the contributions of the first \<open>k\<close>
  identifiers, in list order. They are computed from \<open>handleMC\<close> alone, not from the
  scheduler.
\<close>

definition task_rows :: "config \<Rightarrow> world \<Rightarrow> nat \<times> string \<Rightarrow> contact list" where
  "task_rows cfg w =
     (\<lambda>(j, mc). case fst (handleMC cfg (URL_href w) (task w j) mc) of
                  Returned out \<Rightarrow> out_rows out
                | Killed \<Rightarrow> [])"

definition task_urls :: "config \<Rightarrow> world \<Rightarrow> nat \<times> string \<Rightarrow> string list" where
  "task_urls cfg w =
     (\<lambda>(j, mc). case fst (handleMC cfg (URL_href w) (task w j) mc) of
                  Returned out \<Rightarrow> out_urls out
                | Killed \<Rightarrow> [])"

definition all_rows :: "config \<Rightarrow> world \<Rightarrow> string list \<Rightarrow> nat \<Rightarrow> contact list" where
  "all_rows cfg w mcList k = concat (map (task_rows cfg w) (zip [0..<k] (take k mcList)))"

definition all_urls :: "config \<Rightarrow> world \<Rightarrow> string list \<Rightarrow> nat \<Rightarrow> string list" where
  "all_urls cfg w mcList k = concat (map (task_urls cfg w) (zip [0..<k] (take k mcList)))"

text \<open>The number of identifiers whose tasks have completed in the waves of a trace.\<close>

fun wave_size :: "sched_event \<Rightarrow> nat" where
  "wave_size (WaveDone results) = length results"
| "wave_size (Paused n) = 0"
| "wave_size (Written name content) = 0"

definition completed :: "sched_event list \<Rightarrow> nat" where
  "completed tr = sum_list (map wave_size tr)"

text \<open>
  Two more properties that every step of the batch iteration keeps. Every file is
  written at a batch boundary: when the file is the \<open>n\<close>-th, the waves before it have
  completed exactly the identifiers of the first \<open>n\<close> batches, and its content is the
  serialization of their contributions. The accumulator holds the contributions of
  the identifiers completed so far.
\<close>

definition checkpoints_placed :: "config \<Rightarrow> world \<Rightarrow> string list \<Rightarrow> sched_event list \<Rightarrow> bool" where
  "checkpoints_placed cfg w mcList tr =
     (\<forall>p<length tr. \<forall>name content. tr ! p = Written name content \<longrightarrow>
        completed (take p tr)
          = min (length mcList) (Suc (checkpoints (take p tr)) * BATCH_SIZE cfg) \<and>
        content = to_csv (all_rows cfg w mcList (completed (take p tr))))"

definition in_step :: "config \<Rightarrow> world \<Rightarrow> string list \<Rightarrow> run_state \<Rightarrow> bool" where
  "in_step cfg w mcList st =
     (completed (trace st) \<le> length mcList \<and>
      rows st = all_rows cfg w mcList (completed (trace st)) \<and>
      validUrls st = all_urls cfg w mcList (completed (trace st)) \<and>
      checkpoints_placed cfg w mcList (trace st))"

text \<open>The outcome of a task in URL-only mode, for the identifier at position \<open>j\<close>.\<close>

definition url_outcome :: "world \<Rightarrow> nat \<times> string \<Rightarrow> outcome" where
  "url_outcome w = (\<lambda>(j, mc). if passes (task w j) mc
       then \<lparr>valid = True, o_url = Some (mcToSnapshotUrl mc), o_row = None\<rparr> else invalid)"


section \<open>Sample runs\<close>

text \<open>
  Two identifiers: the lookup page of the first is live and has no links, the lookup
  page of the second says that the record was not found. One identifier per wave and
  per batch; the configured pause between waves is 10 ms in the first configuration.
\<close>

definition sample_world :: world where
  "sample_world =
     \<lparr>task = (\<lambda>j. \<lparr>net = (\<lambda>k u. if j = 0 then Replied 200 ''ok''
                                  else Replied 200 ''Record Not Found''),
                    timely = True\<rparr>),
      URL_href = (\<lambda>h b. None),
      iso_time = (\<lambda>k. if k = 0 then ''T0:0.1'' else ''T1:0.2''),
      epoch = ''17''\<rparr>"

definition sample_urls_cfg :: config where
  "sample_urls_cfg =
     \<lparr>CONCURRENCY = 1, DELAY = 10, BATCH_SIZE = 1, WAIT_SECONDS = 0, MODE = ''urls''\<rparr>"

definition sample_both_cfg :: config where
  "sample_both_cfg =
     \<lparr>CONCURRENCY = 1, DELAY = 300, BATCH_SIZE = 1, WAIT_SECONDS = 1, MODE = ''both''\<rparr>"

definition sample_contact :: contact where
  "sample_contact = \<lparr>email = [], mcNumber = [], phone = [], url = mcToSnapshotUrl ''1''\<rparr>"

text \<open>
  Two live identifiers: every request is answered with a page without links, so both
  identifiers give a record, one per batch.
\<close>

definition live_world :: world where
  "live_world =
     \<lparr>task = (\<lambda>j. \<lparr>net = (\<lambda>k u. Replied 200 ''ok''), timely = True\<rparr>),
      URL_href = (\<lambda>h b. None),
      iso_time = (\<lambda>k. if k = 0 then ''T0:0.1'' else ''T1:0.2''),
      epoch = ''17''\<rparr>"

definition second_contact :: contact where
  "second_contact = \<lparr>email = [], mcNumber = [], phone = [], url = mcToSnapshotUrl ''2''\<rparr>"







section \<open>Retry and backoff\<close>

declare fetchRetry_loop.simps [simp del]

lemma requests_append: "requests (ev @ ev') = requests ev + requests ev'"
  by (simp add: requests_def)

lemma waited_append: "waited (ev @ ev') = waited ev + waited ev'"
  by (simp add: waited_def)

lemma requests_failed_rounds: "requests (failed_rounds u i k) = k"
  by (induction k arbitrary: i) (simp_all add: requests_def)

lemma waited_failed_rounds:
  "waited (failed_rounds u i k) = (\<Sum>j<k. BACKOFF_BASE_MS * 2 ^ (i + j))"
proof (induction k arbitrary: i)
  case 0
  show ?case by (simp add: waited_def)
next
  case (Suc k)
  have "waited (failed_rounds u i (Suc k)) =
      BACKOFF_BASE_MS * 2 ^ i + waited (failed_rounds u (Suc i) k)"
    by (simp add: waited_def)
  also have "\<dots> = BACKOFF_BASE_MS * 2 ^ i + (\<Sum>j<k. BACKOFF_BASE_MS * 2 ^ (Suc i + j))"
    by (simp only: Suc.IH)
  also have "\<dots> = (\<Sum>j<Suc k. BACKOFF_BASE_MS * 2 ^ (i + j))"
    using sum.lessThan_Suc_shift [of "\<lambda>j. BACKOFF_BASE_MS * 2 ^ (i + j)" k] by simp
  finally show ?case .
qed

lemma attempt_failure:
  "failure label (nt (requests ev) u) = Some e \<Longrightarrow>
     attempt nt u label ev = (Inl e, ev @ [Fetch u])"
  by (cases "nt (requests ev) u") (auto simp: attempt_def fetchWithTimeout_def split: if_splits)

lemma attempt_success:
  "nt (requests ev) u = Replied status body \<Longrightarrow> ok status \<Longrightarrow>
     attempt nt u label ev = (Inr body, ev @ [Fetch u])"
  by (simp add: attempt_def fetchWithTimeout_def)

lemma attempt_events: "snd (attempt nt u label ev) = ev @ [Fetch u]"
  by (cases "nt (requests ev) u") (auto simp: attempt_def fetchWithTimeout_def)

lemma loop_step_failure:
  "i < tries \<Longrightarrow> failure label (nt (requests ev) u) = Some e \<Longrightarrow>
   fetchRetry_loop nt u tries label i lastErr ev
     = fetchRetry_loop nt u tries label (Suc i) (Some e)
         (ev @ [Fetch u, Sleep (BACKOFF_BASE_MS * 2 ^ i)])"
  by (subst fetchRetry_loop.simps) (simp add: attempt_failure)

lemma loop_step_success:
  "i < tries \<Longrightarrow> nt (requests ev) u = Replied status body \<Longrightarrow> ok status \<Longrightarrow>
   fetchRetry_loop nt u tries label i lastErr ev = (Inr body, ev @ [Fetch u])"
  by (subst fetchRetry_loop.simps) (simp add: attempt_success)

lemma loop_step_done:
  "\<not> i < tries \<Longrightarrow>
   fetchRetry_loop nt u tries label i lastErr ev
     = (Inl (case lastErr of Some e \<Rightarrow> e | None \<Rightarrow> RetryFailed label), ev)"
  by (subst fetchRetry_loop.simps) simp

lemma requests_round [simp]:
  "requests (ev @ [Fetch u, Sleep n]) = Suc (requests ev)"
  by (simp add: requests_def)

lemma loop_succeeds_after:
  "i + k < tries \<Longrightarrow> \<forall>j<k. failure label (nt (requests ev + j) u) \<noteq> None \<Longrightarrow>
   nt (requests ev + k) u = Replied status body \<Longrightarrow> ok status \<Longrightarrow>
   fetchRetry_loop nt u tries label i lastErr ev
     = (Inr body, ev @ failed_rounds u i k @ [Fetch u])"
proof (induction k arbitrary: i lastErr ev)
  case 0
  then show ?case by (simp add: loop_step_success)
next
  case (Suc k)
  from Suc.prems(2) have "failure label (nt (requests ev + 0) u) \<noteq> None" by blast
  then obtain e where e: "failure label (nt (requests ev) u) = Some e" by auto
  let ?ev = "ev @ [Fetch u, Sleep (BACKOFF_BASE_MS * 2 ^ i)]"
  have "fetchRetry_loop nt u tries label (Suc i) (Some e) ?ev
      = (Inr body, ?ev @ failed_rounds u (Suc i) k @ [Fetch u])"
  proof (rule Suc.IH)
    show "Suc i + k < tries" using Suc.prems(1) by simp
    show "\<forall>j<k. failure label (nt (requests ?ev + j) u) \<noteq> None"
    proof (intro allI impI)
      fix j assume "j < k"
      then have "Suc j < Suc k" by simp
      then have "failure label (nt (requests ev + Suc j) u) \<noteq> None"
        using Suc.prems(2) by blast
      then show "failure label (nt (requests ?ev + j) u) \<noteq> None" by simp
    qed
    show "nt (requests ?ev + k) u = Replied status body" using Suc.prems(3) by simp
    show "ok status" by fact
  qed
  moreover have lt: "i < tries" using Suc.prems(1) by simp
  ultimately show ?case
    by (simp add: loop_step_failure [where nt = nt and ev = ev and u = u, OF lt e])
qed

lemma loop_all_fail:
  "i + k = tries \<Longrightarrow> \<forall>j<k. failure label (nt (requests ev + j) u) \<noteq> None \<Longrightarrow>
   fetchRetry_loop nt u tries label i lastErr ev
     = (Inl (case k of 0 \<Rightarrow> (case lastErr of Some e \<Rightarrow> e | None \<Rightarrow> RetryFailed label)
              | Suc k' \<Rightarrow> the (failure label (nt (requests ev + k') u))),
        ev @ failed_rounds u i k)"
proof (induction k arbitrary: i lastErr ev)
  case 0
  then show ?case by (simp add: loop_step_done)
next
  case (Suc k)
  from Suc.prems(2) have "failure label (nt (requests ev + 0) u) \<noteq> None" by blast
  then obtain e where e: "failure label (nt (requests ev) u) = Some e" by auto
  let ?ev = "ev @ [Fetch u, Sleep (BACKOFF_BASE_MS * 2 ^ i)]"
  have ih: "fetchRetry_loop nt u tries label (Suc i) (Some e) ?ev
      = (Inl (case k of 0 \<Rightarrow> (case Some e of Some e \<Rightarrow> e | None \<Rightarrow> RetryFailed label)
              | Suc k' \<Rightarrow> the (failure label (nt (requests ?ev + k') u))),
        ?ev @ failed_rounds u (Suc i) k)"
  proof (rule Suc.IH)
    show "Suc i + k = tries" using Suc.prems(1) by simp
    show "\<forall>j<k. failure label (nt (requests ?ev + j) u) \<noteq> None"
    proof (intro allI impI)
      fix j assume "j < k"
      then have "Suc j < Suc k" by simp
      then have "failure label (nt (requests ev + Suc j) u) \<noteq> None"
        using Suc.prems(2) by blast
      then show "failure label (nt (requests ?ev + j) u) \<noteq> None" by simp
    qed
  qed
  have lt: "i < tries" using Suc.prems(1) by simp
  show ?case
    by (cases k)
      (simp_all add: loop_step_failure [where nt = nt and ev = ev and u = u, OF lt e] ih e)
qed

lemma loop_requests_bound:
  "requests (snd (fetchRetry_loop nt u tries label i lastErr ev)) \<le> requests ev + (tries - i)"
proof (induction nt u tries label i lastErr ev rule: fetchRetry_loop.induct)
  case (1 nt u tries label i lastErr ev)
  show ?case
  proof (cases "i < tries")
    case False
    then show ?thesis by (simp add: loop_step_done)
  next
    case True
    obtain r ev' where a: "attempt nt u label ev = (r, ev')" by (cases "attempt nt u label ev")
    have ev': "ev' = ev @ [Fetch u]" using attempt_events [of nt u label ev] a by simp
    show ?thesis
    proof (cases r)
      case (Inr body)
      with True a ev' show ?thesis
        by (subst fetchRetry_loop.simps) (simp add: requests_def)
    next
      case (Inl err)
      have "requests (snd (fetchRetry_loop nt u tries label (i + 1) (Some err)
              (ev' @ [Sleep (BACKOFF_BASE_MS * 2 ^ i)])))
            \<le> requests (ev' @ [Sleep (BACKOFF_BASE_MS * 2 ^ i)]) + (tries - (i + 1))"
        using "1.IH" [OF True a [symmetric] Inl] .
      with True a Inl ev' show ?thesis
        by (subst fetchRetry_loop.simps) (simp add: requests_def)
    qed
  qed
qed

text \<open>
  Claim C4. \<open>fetchRetry\<close> issues at most \<open>tries\<close> requests. When the first \<open>k < tries\<close>
  attempts fail and the next one succeeds, it returns the body of that answer; its
  events are \<open>k\<close> rounds of a request followed by a sleep of \<open>BACKOFF_BASE_MS * 2 ^ i\<close>
  after failed attempt \<open>i\<close>, then the successful request, so it has waited the sum of
  \<open>BACKOFF_BASE_MS * 2 ^ i\<close> over \<open>i < k\<close>. When all \<open>tries > 0\<close> attempts fail it throws
  the error of the last attempt.
\<close>

theorem fetchRetry_attempts_and_backoff:
  "requests (snd (fetchRetry nt u tries label ev)) \<le> requests ev + tries \<and>
   (k < tries \<and> (\<forall>j<k. failure label (nt (requests ev + j) u) \<noteq> None) \<and>
    nt (requests ev + k) u = Replied status body \<and> ok status \<longrightarrow>
      fetchRetry nt u tries label ev = (Inr body, ev @ failed_rounds u 0 k @ [Fetch u]) \<and>
      waited (snd (fetchRetry nt u tries label ev))
        = waited ev + (\<Sum>i<k. BACKOFF_BASE_MS * 2 ^ i)) \<and>
   (0 < tries \<and> (\<forall>j<tries. failure label (nt (requests ev + j) u) \<noteq> None) \<and>
    failure label (nt (requests ev + (tries - 1)) u) = Some e \<longrightarrow>
      fetchRetry nt u tries label ev = (Inl e, ev @ failed_rounds u 0 tries))"
proof (intro conjI impI)
  show "requests (snd (fetchRetry nt u tries label ev)) \<le> requests ev + tries"
    using loop_requests_bound [of nt u tries label 0 None ev] by (simp add: fetchRetry_def)
next
  assume h: "k < tries \<and> (\<forall>j<k. failure label (nt (requests ev + j) u) \<noteq> None) \<and>
    nt (requests ev + k) u = Replied status body \<and> ok status"
  then show *: "fetchRetry nt u tries label ev
      = (Inr body, ev @ failed_rounds u 0 k @ [Fetch u])"
    unfolding fetchRetry_def by (intro loop_succeeds_after) auto
  show "waited (snd (fetchRetry nt u tries label ev))
        = waited ev + (\<Sum>i<k. BACKOFF_BASE_MS * 2 ^ i)"
    using waited_failed_rounds [of u 0 k]
    by (simp add: * waited_append) (simp add: waited_def)
next
  assume h: "0 < tries \<and> (\<forall>j<tries. failure label (nt (requests ev + j) u) \<noteq> None) \<and>
    failure label (nt (requests ev + (tries - 1)) u) = Some e"
  then obtain t where t: "tries = Suc t" by (cases tries) auto
  have "fetchRetry_loop nt u tries label 0 None ev
     = (Inl (case tries of 0 \<Rightarrow> (case None of Some e \<Rightarrow> e | None \<Rightarrow> RetryFailed label)
              | Suc k' \<Rightarrow> the (failure label (nt (requests ev + k') u))),
        ev @ failed_rounds u 0 tries)"
    using h by (intro loop_all_fail) auto
  with h t show "fetchRetry nt u tries label ev = (Inl e, ev @ failed_rounds u 0 tries)"
    by (simp add: fetchRetry_def)
qed

theorem fetchRetry_attempts_and_backoff_witness:
  "fetchRetry (\<lambda>k u. if k < 2 then Rejected ''reset'' else Replied 200 ''page'') ''u'' 3 ''snapshot'' []
     = (Inr ''page'', [Fetch ''u'', Sleep 2000, Fetch ''u'', Sleep 4000, Fetch ''u'']) \<and>
   waited (snd (fetchRetry (\<lambda>k u. if k < 2 then Rejected ''reset'' else Replied 200 ''page'')
                  ''u'' 3 ''snapshot'' [])) = 6000 \<and>
   fetchRetry (\<lambda>k u. Replied 503 []) ''u'' 3 ''snapshot'' []
     = (Inl (HttpError ''snapshot'' 503),
        [Fetch ''u'', Sleep 2000, Fetch ''u'', Sleep 4000, Fetch ''u'', Sleep 8000])"
proof -
  let ?n1 = "\<lambda>(k::nat) (u::string). if k < 2 then Rejected ''reset'' else Replied 200 ''page''"
  let ?n2 = "\<lambda>(k::nat) (u::string). Replied 503 []"
  have r0: "requests [] = 0" by (simp add: requests_def)
  have h1: "(2::nat) < 3 \<and> (\<forall>j<2. failure ''snapshot'' (?n1 (requests [] + j) ''u'') \<noteq> None) \<and>
      ?n1 (requests [] + 2) ''u'' = Replied 200 ''page'' \<and> ok 200"
    by (simp add: r0 ok_def)
  have h2: "(0::nat) < 3 \<and> (\<forall>j<3. failure ''snapshot'' (?n2 (requests [] + j) ''u'') \<noteq> None) \<and>
      failure ''snapshot'' (?n2 (requests [] + (3 - 1)) ''u'') = Some (HttpError ''snapshot'' 503)"
    by (simp add: r0 ok_def)
  have f2: "failed_rounds ''u'' 0 2 = [Fetch ''u'', Sleep 2000, Fetch ''u'', Sleep 4000]"
    by (simp add: numeral_2_eq_2 BACKOFF_BASE_MS_def)
  have f3: "failed_rounds ''u'' 0 3
      = [Fetch ''u'', Sleep 2000, Fetch ''u'', Sleep 4000, Fetch ''u'', Sleep 8000]"
    by (simp add: numeral_3_eq_3 BACKOFF_BASE_MS_def)
  have s2: "(\<Sum>i<(2::nat). BACKOFF_BASE_MS * 2 ^ i) = 6000"
    by (simp add: numeral_2_eq_2 BACKOFF_BASE_MS_def)
  have w0: "waited [] = 0" by (simp add: waited_def)
  from fetchRetry_attempts_and_backoff
          [of ?n1 "''u''" 3 "''snapshot''" "[]" 2 200 "''page''" "HttpError ''snapshot'' 503"] h1
  have a: "fetchRetry ?n1 ''u'' 3 ''snapshot'' [] = (Inr ''page'', [] @ failed_rounds ''u'' 0 2 @ [Fetch ''u''])
     \<and> waited (snd (fetchRetry ?n1 ''u'' 3 ''snapshot'' [])) = waited [] + (\<Sum>i<2. BACKOFF_BASE_MS * 2 ^ i)"
    by blast
  from fetchRetry_attempts_and_backoff
          [of ?n2 "''u''" 3 "''snapshot''" "[]" 0 200 "''page''" "HttpError ''snapshot'' 503"] h2
  have b: "fetchRetry ?n2 ''u'' 3 ''snapshot'' []
      = (Inl (HttpError ''snapshot'' 503), [] @ failed_rounds ''u'' 0 3)"
    by blast
  from a b show ?thesis by (simp add: f2 f3 s2 w0 waited_def)
qed


section \<open>Quoting round trip\<close>

declare replace_all.simps [simp del] exec_all.simps [simp del]

lemma match_here_Lit_Nil: "match_here ci (Lit c) [] = None"
  by (simp add: match_here_def)

lemma match_here_Lit_Cons:
  "match_here False (Lit c) (x # xs) =
     (if x = c then Some \<lparr>m_text = [x], m_groups = [], m_rest = xs\<rparr> else None)"
  by (simp add: match_here_def)

lemma replace_all_Lit:
  "replace_all False (Lit c) rep s = concat (map (\<lambda>x. if x = c then rep else [x]) s)"
proof (induction s)
  case Nil
  show ?case by (subst replace_all.simps) (simp add: match_here_Lit_Nil)
next
  case (Cons x xs)
  show ?case
    by (subst replace_all.simps) (simp add: match_here_Lit_Cons Cons.IH)
qed

lemma read_quoted_body_escaped:
  "rest = [] \<or> hd rest \<noteq> dq \<Longrightarrow>
   read_quoted_body (concat (map (\<lambda>x. if x = dq then [dq, dq] else [x]) v) @ dq # rest)
     = Some (v, rest)"
proof (induction v)
  case Nil
  then show ?case by (cases rest) auto
next
  case (Cons x xs)
  show ?case
  proof (cases "x = dq")
    case True
    with Cons show ?thesis by simp
  next
    case False
    obtain d s where ds: "concat (map (\<lambda>x. if x = dq then [dq, dq] else [x]) xs) @ dq # rest = d # s"
      by (cases "concat (map (\<lambda>x. if x = dq then [dq, dq] else [x]) xs) @ dq # rest") auto
    from Cons have "read_quoted_body (d # s) = Some (xs, rest)" by (simp add: ds)
    with False show ?thesis by (simp add: ds)
  qed
qed

text \<open>
  Claim C9. Reading back a serialized field gives the field: for every value \<open>v\<close>,
  also one with quote characters, the reader of quoted fields applied to
  \<open>csv_field v\<close> followed by any text that does not begin with a quote (in a
  checkpoint: a comma, a line break or the end) returns \<open>v\<close> and that text.
\<close>

theorem csv_field_round_trip:
  "rest = [] \<or> hd rest \<noteq> dq \<Longrightarrow> read_quoted (csv_field v @ rest) = Some (v, rest)"
  by (simp add: read_quoted_def csv_field_def replace_all_Lit read_quoted_body_escaped)

theorem csv_field_round_trip_witness:
  "read_quoted (csv_field (''say '' @ [dq] @ ''hi'' @ [dq]) @ '',x'') = Some (''say '' @ [dq] @ ''hi'' @ [dq], '',x'')
   \<and> csv_field (''a'' @ [dq] @ ''b'') = [dq] @ ''a'' @ [dq, dq] @ ''b'' @ [dq]"
  using csv_field_round_trip [of "'',x''" "''say '' @ [dq] @ ''hi'' @ [dq]"]
  by (simp add: dq_def csv_field_def replace_all_Lit)


section \<open>The validity gate\<close>

lemma starts_with_iff: "starts_with s p \<longleftrightarrow> length p \<le> length s \<and> take (length p) s = p"
  by (induction s p rule: starts_with.induct) auto

lemma includes_lower_has_marker:
  "map lower_char marker = marker \<Longrightarrow>
     includes_str (map lower_char pg) marker = has_marker pg marker"
proof (induction pg)
  case Nil
  show ?case by simp
next
  case (Cons x xs)
  have "starts_with (map lower_char (x # xs)) marker \<longleftrightarrow>
      length marker \<le> length (x # xs) \<and>
      map lower_char (take (length marker) (x # xs)) = map lower_char marker"
    using Cons.prems by (simp only: starts_with_iff take_map length_map)
  then show ?case using Cons by simp
qed

lemma dead_marker_has_marker:
  "dead_marker page \<longleftrightarrow>
     has_marker page ''record not found'' \<or> has_marker page ''record inactive''"
proof -
  have a: "map lower_char ''record not found'' = ''record not found''"
    by code_simp
  have b: "map lower_char ''record inactive'' = ''record inactive''"
    by code_simp
  show ?thesis
    unfolding dead_marker_def toLowerCase_def Let_def
    by (simp only: includes_lower_has_marker [OF a] includes_lower_has_marker [OF b])
qed

declare ms.simps(6,7) [simp del]

lemma ms_Seq_mem:
  "st' \<in> set (ms ci (Seq a b) st) \<Longrightarrow> \<exists>st1 \<in> set (ms ci a st). st' \<in> set (ms ci b st1)"
  by auto

lemma ms_Star_Cls_Nil: "ms ci (Star (Cls P)) ([], cs) = [([], cs)]"
  by (subst ms.simps) simp

lemma ms_Star_Cls_Cons:
  "ms ci (Star (Cls P)) (x # xs, cs) =
     (if P x then ms ci (Star (Cls P)) (xs, cs) @ [(x # xs, cs)] else [(x # xs, cs)])"
  by (subst ms.simps) simp

lemma ms_Star_Cls:
  "st' \<in> set (ms ci (Star (Cls P)) (s, cs)) \<Longrightarrow> \<exists>w. s = w @ fst st' \<and> (\<forall>c \<in> set w. P c)"
proof (induction s arbitrary: st')
  case Nil
  then show ?case by (simp add: ms_Star_Cls_Nil)
next
  case (Cons x xs)
  show ?case
  proof (cases "P x")
    case False
    with Cons.prems show ?thesis by (simp add: ms_Star_Cls_Cons)
  next
    case True
    with Cons.prems have "st' \<in> set (ms ci (Star (Cls P)) (xs, cs)) \<or> st' = (x # xs, cs)"
      by (auto simp: ms_Star_Cls_Cons)
    then show ?thesis
    proof
      assume "st' \<in> set (ms ci (Star (Cls P)) (xs, cs))"
      from Cons.IH [OF this] obtain w where "xs = w @ fst st'" "\<forall>c \<in> set w. P c" by blast
      with True have "x # xs = (x # w) @ fst st' \<and> (\<forall>c \<in> set (x # w). P c)" by simp
      then show ?thesis by blast
    next
      assume "st' = (x # xs, cs)"
      then show ?thesis by simp
    qed
  qed
qed

lemma ms_plus_Cls:
  assumes "st' \<in> set (ms ci (plus (Cls P)) (s, cs))"
  shows "\<exists>w. w \<noteq> [] \<and> s = w @ fst st' \<and> (\<forall>c \<in> set w. P c)"
proof -
  from assms obtain st1 where st1: "st1 \<in> set (ms ci (Cls P) (s, cs))"
      and st': "st' \<in> set (ms ci (Star (Cls P)) st1)"
    unfolding plus_def using ms_Seq_mem by blast
  from st1 obtain x xs where s: "s = x # xs" "P x" "st1 = (xs, cs)"
    by (cases s) (auto split: if_splits)
  from ms_Star_Cls [of st' ci P xs cs] st' s obtain w where "xs = w @ fst st'" "\<forall>c \<in> set w. P c"
    by blast
  with s have "x # w \<noteq> [] \<and> s = (x # w) @ fst st' \<and> (\<forall>c \<in> set (x # w). P c)" by simp
  then show ?thesis by blast
qed

lemma ms_Grp_plus_Cls:
  assumes "st' \<in> set (ms ci (Grp n (plus (Cls P))) st)"
  shows "\<exists>g. map_of (snd st') n = Some g \<and> g \<noteq> [] \<and> (\<forall>c \<in> set g. P c)"
proof -
  obtain s cs where st: "st = (s, cs)" by (cases st)
  from assms st obtain st2 where st2: "st2 \<in> set (ms ci (plus (Cls P)) (s, cs))"
      and eq: "st' = (fst st2, (n, take (length s - length (fst st2)) s) # snd st2)"
    by auto
  from ms_plus_Cls [OF st2] obtain w where w: "w \<noteq> []" "s = w @ fst st2" "\<forall>c \<in> set w. P c"
    by blast
  then have "take (length s - length (fst st2)) s = w" by simp
  with eq w show ?thesis by simp
qed

lemma match_here_Some:
  "match_here ci r s = Some m \<Longrightarrow> \<exists>st \<in> set (ms ci r (s, [])). m_groups m = snd st"
  by (auto simp: match_here_def split: list.splits)

lemma search_Some: "search ci r s = Some m \<Longrightarrow> \<exists>t. match_here ci r t = Some m"
  by (induction s) (auto split: option.splits)

lemma power_units_digits:
  assumes "search True re_power_units page = Some m"
  shows "\<exists>g. group m 1 = Some g \<and> g \<noteq> [] \<and> (\<forall>c \<in> set g. is_digit c \<or> c = CHR '','')"
proof -
  from search_Some [OF assms] obtain t where "match_here True re_power_units t = Some m" ..
  from match_here_Some [OF this] obtain st
    where st: "st \<in> set (ms True re_power_units (t, []))" and g: "m_groups m = snd st" by blast
  let ?G = "Grp 1 (plus (Cls (\<lambda>c. is_digit c \<or> c = CHR '','')))"
  have re: "re_power_units =
      Seq (lits ''Power'') (Seq (Star (Cls is_space)) (Seq (lits ''Units'')
        (Seq (Star (Cls (\<lambda>c. \<not> is_digit c))) ?G)))"
    by (simp add: re_power_units_def)
  from st obtain st4 where "st \<in> set (ms True ?G st4)"
    unfolding re by (blast dest: ms_Seq_mem)
  from ms_Grp_plus_Cls [OF this] show ?thesis by (simp add: group_def g)
qed

lemma remove_char: "concat (map (\<lambda>x. if x = c then [] else [x]) s) = filter (\<lambda>x. x \<noteq> c) s"
  by (induction s) auto

lemma Number_figure:
  "\<forall>c \<in> set g. is_digit c \<or> c = CHR '','' \<Longrightarrow>
     Number (replace_all False (Lit (CHR '','')) [] g) = Some (figure_value g)"
  by (auto simp: Number_def figure_value_def replace_all_Lit remove_char list_all_iff)

lemma puZero_figure:
  "puZero page = (case power_units_figure page of Some fig \<Rightarrow> figure_value fig = 0 | None \<Rightarrow> False)"
proof (cases "search True re_power_units page")
  case None
  then show ?thesis by (simp add: puZero_def power_units_figure_def)
next
  case (Some m)
  from power_units_digits [OF Some] obtain g
    where g: "group m 1 = Some g" "\<forall>c \<in> set g. is_digit c \<or> c = CHR '',''" by blast
  with Some Number_figure [OF g(2)] show ?thesis
    by (simp add: puZero_def power_units_figure_def)
qed

subsection \<open>The pattern search, step by step\<close>

lemma ms_Star_Cls_peel: "ms ci (Star (Cls P)) (s, cs) = map (\<lambda>r. (r, cs)) (peel P s)"
  by (induction s) (simp_all add: ms_Star_Cls_Nil ms_Star_Cls_Cons)

lemma peel_head:
  "\<exists>ts. peel P s = dropWhile P s # ts \<and> (\<forall>t \<in> set ts. t \<noteq> [] \<and> P (hd t))"
  by (induction s) auto

lemma ci_prefix_Nil: "ci_prefix (c # w) [] = None"
  by (simp add: ci_prefix_def)

lemma ci_prefix_Cons:
  "ci_prefix (c # d # w) (x # xs)
     = (if lower_char x = lower_char c then ci_prefix (d # w) xs else None)"
  by (auto simp: ci_prefix_def)

lemma ci_prefix_single:
  "ci_prefix [c] (x # xs) = (if lower_char x = lower_char c then Some xs else None)"
  by (simp add: ci_prefix_def)

lemma ms_lits_ci:
  "w \<noteq> [] \<Longrightarrow>
     ms True (lits w) (t, cs) = (case ci_prefix w t of None \<Rightarrow> [] | Some r \<Rightarrow> [(r, cs)])"
proof (induction w arbitrary: t rule: lits.induct)
  case 1
  then show ?case by simp
next
  case (2 c)
  show ?case by (cases t) (simp_all add: ci_prefix_Nil ci_prefix_single)
next
  case (3 c d w)
  show ?case
  proof (cases t)
    case Nil
    then show ?thesis by (simp add: ci_prefix_Nil)
  next
    case (Cons x xs)
    with 3 show ?thesis by (simp add: ci_prefix_Cons)
  qed
qed

lemma space_not_u: "is_space x \<Longrightarrow> lower_char x \<noteq> CHR ''u''"
  by (auto simp: is_space_def lower_char_def capitals_def smalls_def)

lemma ci_prefix_Units_space: "t \<noteq> [] \<Longrightarrow> is_space (hd t) \<Longrightarrow> ci_prefix ''Units'' t = None"
proof (cases t)
  case Nil
  then show "t \<noteq> [] \<Longrightarrow> ?thesis" by simp
next
  case (Cons x xs)
  assume "is_space (hd t)"
  with Cons have "lower_char x \<noteq> CHR ''u''" by (simp add: space_not_u)
  moreover have "lower_char (CHR ''U'') = CHR ''u''" by code_simp
  ultimately show ?thesis using Cons by (simp add: ci_prefix_Cons)
qed

lemma ms_plus_Cls_list:
  "ms ci (plus (Cls P)) (r, cs)
     = (case r of [] \<Rightarrow> [] | x # xs \<Rightarrow> if P x then map (\<lambda>q. (q, cs)) (peel P xs) else [])"
  by (cases r) (simp_all add: plus_def ms_Star_Cls_peel)

lemma take_run:
  "take (Suc (length xs) - length (dropWhile P xs)) (x # xs) = x # takeWhile P xs"
proof -
  have l: "length (takeWhile P xs) + length (dropWhile P xs) = length xs"
    by (metis length_append takeWhile_dropWhile_id)
  then have "Suc (length xs) - length (dropWhile P xs) = Suc (length (takeWhile P xs))" by simp
  moreover have "take (length (takeWhile P xs)) xs = takeWhile P xs"
    by (metis takeWhile_eq_take)
  ultimately show ?thesis by simp
qed

lemma ms_group_none:
  "group_here r = None \<Longrightarrow> ms ci (Grp n (plus (Cls digit_or_comma))) (r, cs) = []"
  by (cases r) (simp_all add: group_here_def ms_plus_Cls_list split: if_splits)

lemma ms_group_some:
  assumes "group_here r = Some g"
  shows "\<exists>q more. ms ci (Grp n (plus (Cls digit_or_comma))) (r, cs) = (q, (n, g) # cs) # more"
proof -
  from assms obtain x xs where r: "r = x # xs" "digit_or_comma x"
      "g = x # takeWhile digit_or_comma xs"
    by (cases r) (auto simp: group_here_def split: if_splits)
  from peel_head [of digit_or_comma xs] obtain ts
    where ts: "peel digit_or_comma xs = dropWhile digit_or_comma xs # ts" by blast
  from r ts show ?thesis
    by (simp add: ms_plus_Cls_list take_run)
qed

lemma groups_none:
  "first_group rs = None \<Longrightarrow>
     concat (map (\<lambda>r. ms ci (Grp n (plus (Cls digit_or_comma))) (r, cs)) rs) = []"
proof (induction rs)
  case Nil
  show ?case by simp
next
  case (Cons r rs)
  then show ?case by (auto simp: ms_group_none simp del: ms.simps split: option.splits)
qed

lemma groups_some:
  "first_group rs = Some g \<Longrightarrow>
     \<exists>q more. concat (map (\<lambda>r. ms ci (Grp n (plus (Cls digit_or_comma))) (r, cs)) rs)
        = (q, (n, g) # cs) # more"
proof (induction rs)
  case Nil
  then show ?case by simp
next
  case (Cons r rs)
  show ?case
  proof (cases "group_here r")
    case None
    with Cons show ?thesis by (simp add: ms_group_none del: ms.simps)
  next
    case (Some h)
    with Cons.prems have "h = g" by simp
    with Some ms_group_some [of r g ci n cs] show ?thesis by (auto simp del: ms.simps)
  qed
qed

lemma no_run: "\<forall>c \<in> set xs. \<not> P c \<Longrightarrow> takeWhile P xs = []"
  by (cases xs) auto

lemma dropWhile_Nil_iff: "dropWhile P xs = [] \<longleftrightarrow> (\<forall>c \<in> set xs. P c)"
  by (induction xs) auto

lemma first_group_snoc:
  "first_group (rs @ [t]) = (case first_group rs of Some g \<Rightarrow> Some g | None \<Rightarrow> group_here t)"
  by (induction rs) (auto split: option.splits)

lemma first_group_peel:
  "first_group (peel (\<lambda>c. \<not> is_digit c) rest) = figure_after rest"
proof (induction rest)
  case Nil
  show ?case by (simp add: figure_after_def group_here_def)
next
  case (Cons x xs)
  show ?case
  proof (cases "is_digit x")
    case True
    then show ?thesis by (simp add: figure_after_def group_here_def digit_or_comma_def)
  next
    case False
    show ?thesis
    proof (cases "dropWhile (\<lambda>c. \<not> is_digit c) xs = []")
      case d: False
      with False Cons show ?thesis
        by (simp add: first_group_snoc figure_after_def)
    next
      case d: True
      then have nod: "\<forall>c \<in> set xs. \<not> is_digit c" by (simp add: dropWhile_Nil_iff)
      show ?thesis
      proof (cases "CHR '','' \<in> set xs")
        case True
        with False Cons d show ?thesis
          by (simp add: first_group_snoc figure_after_def)
      next
        case nc: False
        with nod have "\<forall>c \<in> set xs. \<not> digit_or_comma c" by (auto simp: digit_or_comma_def)
        then have "takeWhile digit_or_comma xs = []" by (rule no_run)
        with False Cons d nc show ?thesis
          by (auto simp: first_group_snoc figure_after_def group_here_def digit_or_comma_def)
      qed
    qed
  qed
qed


lemma ms_Seq_Star:
  "ms ci (Seq (Star (Cls P)) b) (s, cs) = concat (map (\<lambda>r. ms ci b (r, cs)) (peel P s))"
  by (simp add: ms_Star_Cls_peel o_def)

lemma ms_Seq_lits:
  "w \<noteq> [] \<Longrightarrow>
     ms True (Seq (lits w) b) (t, cs)
       = (case ci_prefix w t of None \<Rightarrow> [] | Some r \<Rightarrow> ms True b (r, cs))"
  by (simp add: ms_lits_ci split: option.splits)

lemma ms_Seq_word:
  "ms True (Seq (lits (c # w)) b) (t, cs)
     = (case ci_prefix (c # w) t of None \<Rightarrow> [] | Some r \<Rightarrow> ms True b (r, cs))"
  by (rule ms_Seq_lits) simp

lemma digit_or_comma_class: "(\<lambda>c. is_digit c \<or> c = CHR '','') = digit_or_comma"
  by (rule ext) (simp add: digit_or_comma_def)

lemma re_power_units_shape:
  "re_power_units
     = Seq (lits ''Power'')
         (Seq (Star (Cls is_space))
            (Seq (lits ''Units'')
               (Seq (Star (Cls (\<lambda>c. \<not> is_digit c))) (Grp 1 (plus (Cls digit_or_comma))))))"
  by (simp add: re_power_units_def digit_or_comma_class)

text \<open>After the two words: the run of non-digits, then the figure.\<close>

lemma ms_after_words:
  "case figure_after rest of
     None \<Rightarrow> ms ci (Seq (Star (Cls (\<lambda>c. \<not> is_digit c))) (Grp n (plus (Cls digit_or_comma)))) (rest, cs) = []
   | Some g \<Rightarrow> (\<exists>q more. ms ci (Seq (Star (Cls (\<lambda>c. \<not> is_digit c))) (Grp n (plus (Cls digit_or_comma)))) (rest, cs)
                   = (q, (n, g) # cs) # more)"
proof (cases "figure_after rest")
  case None
  then have "first_group (peel (\<lambda>c. \<not> is_digit c) rest) = None" by (simp add: first_group_peel)
  from groups_none [OF this] None show ?thesis by (simp only: ms_Seq_Star option.case)
next
  case (Some g)
  then have "first_group (peel (\<lambda>c. \<not> is_digit c) rest) = Some g" by (simp add: first_group_peel)
  from groups_some [OF this] Some show ?thesis by (simp only: ms_Seq_Star option.case)
qed

lemma ms_after_spaces:
  "ms True (Seq (Star (Cls is_space)) (Seq (lits ''Units'') b)) (t1, cs)
     = (case ci_prefix ''Units'' (dropWhile is_space t1) of
          None \<Rightarrow> []
        | Some rest \<Rightarrow> ms True b (rest, cs))"
proof -
  from peel_head [of is_space t1] obtain ts
    where p: "peel is_space t1 = dropWhile is_space t1 # ts"
      and ts: "\<forall>t \<in> set ts. t \<noteq> [] \<and> is_space (hd t)" by blast
  have "\<forall>t \<in> set ts. ms True (Seq (lits ''Units'') b) (t, cs) = []"
  proof
    fix t assume "t \<in> set ts"
    with ts have "ci_prefix ''Units'' t = None" by (simp add: ci_prefix_Units_space)
    then show "ms True (Seq (lits ''Units'') b) (t, cs) = []"
      by (simp only: ms_Seq_word option.case)
  qed
  then have "concat (map (\<lambda>r. ms True (Seq (lits ''Units'') b) (r, cs)) ts) = []"
    by (simp del: ms.simps)
  then have "ms True (Seq (Star (Cls is_space)) (Seq (lits ''Units'') b)) (t1, cs)
      = ms True (Seq (lits ''Units'') b) (dropWhile is_space t1, cs)"
    by (simp only: ms_Seq_Star p list.map concat.simps append_Nil2)
  also have "\<dots> = (case ci_prefix ''Units'' (dropWhile is_space t1) of
          None \<Rightarrow> [] | Some rest \<Rightarrow> ms True b (rest, cs))"
    by (rule ms_Seq_word)
  finally show ?thesis .
qed

lemma ms_power_units:
  "case figure_at t of
     None \<Rightarrow> ms True re_power_units (t, cs) = []
   | Some g \<Rightarrow> (\<exists>q more. ms True re_power_units (t, cs) = (q, (1, g) # cs) # more)"
proof (cases "ci_prefix ''Power'' t")
  case None
  then show ?thesis
    by (simp only: re_power_units_shape ms_Seq_word
          figure_at_def option.case)
next
  case p: (Some t1)
  show ?thesis
  proof (cases "ci_prefix ''Units'' (dropWhile is_space t1)")
    case None
    with p show ?thesis
      by (simp only: re_power_units_shape ms_Seq_word
            ms_after_spaces figure_at_def option.case)
  next
    case (Some rest)
    with p ms_after_words [where rest = rest and ci = True and n = 1 and cs = cs] show ?thesis
      by (simp only: re_power_units_shape ms_Seq_word
            ms_after_spaces figure_at_def option.case)
  qed
qed

lemma match_here_power_units:
  "case figure_at t of
     None \<Rightarrow> match_here True re_power_units t = None
   | Some g \<Rightarrow> (\<exists>m. match_here True re_power_units t = Some m \<and> group m 1 = Some g)"
proof (cases "figure_at t")
  case None
  with ms_power_units [of t "[]"] show ?thesis by (simp add: match_here_def)
next
  case (Some g)
  with ms_power_units [of t "[]"] obtain q more
    where "ms True re_power_units (t, []) = (q, [(1, g)]) # more" by auto
  with Some show ?thesis by (simp add: match_here_def group_def)
qed

lemma figure_at_Nil: "figure_at [] = None"
  by (simp add: figure_at_def ci_prefix_def)

lemma power_units_located: "power_units_figure pg = located_figure pg"
proof (induction pg)
  case Nil
  from match_here_power_units [of "[]"] show ?case
    by (simp add: power_units_figure_def figure_at_Nil)
next
  case (Cons x xs)
  show ?case
  proof (cases "figure_at (x # xs)")
    case None
    with match_here_power_units [of "x # xs"] Cons show ?thesis
      by (simp add: power_units_figure_def)
  next
    case (Some g)
    with match_here_power_units [of "x # xs"] show ?thesis
      by (auto simp: power_units_figure_def)
  qed
qed

lemma gate_is_rule:
  "(if dead_marker page then Invalid else if puZero page then Invalid else Valid) = verdict_rule page"
  by (simp add: verdict_rule_def dead_marker_has_marker puZero_figure power_units_located
        split: option.splits)


section \<open>One identifier: what the task does\<close>

lemma loop_shape:
  "\<exists>k. (i + k = tries \<or> \<not> i < tries \<and> k = 0) \<and> (\<exists>e. fst (fetchRetry_loop nt u tries label i lastErr ev) = Inl e) \<and>
        snd (fetchRetry_loop nt u tries label i lastErr ev) = ev @ failed_rounds u i k
     \<or> i + k < tries \<and> (\<exists>b. fst (fetchRetry_loop nt u tries label i lastErr ev) = Inr b) \<and>
        snd (fetchRetry_loop nt u tries label i lastErr ev) = ev @ failed_rounds u i k @ [Fetch u]"
proof (induction nt u tries label i lastErr ev rule: fetchRetry_loop.induct)
  case (1 nt u tries label i lastErr ev)
  show ?case
  proof (cases "i < tries")
    case False
    then have "(i + 0 = tries \<or> \<not> i < tries \<and> (0::nat) = 0) \<and>
        (\<exists>e. fst (fetchRetry_loop nt u tries label i lastErr ev) = Inl e) \<and>
        snd (fetchRetry_loop nt u tries label i lastErr ev) = ev @ failed_rounds u i 0"
      by (simp add: loop_step_done)
    then show ?thesis by blast
  next
    case True
    obtain r ev' where a: "attempt nt u label ev = (r, ev')" by (cases "attempt nt u label ev")
    have ev': "ev' = ev @ [Fetch u]" using attempt_events [of nt u label ev] a by simp
    show ?thesis
    proof (cases r)
      case (Inr body)
      with True a ev' have "fetchRetry_loop nt u tries label i lastErr ev = (Inr body, ev @ [Fetch u])"
        by (subst fetchRetry_loop.simps) simp
      with True have "i + 0 < tries \<and> (\<exists>b. fst (fetchRetry_loop nt u tries label i lastErr ev) = Inr b) \<and>
        snd (fetchRetry_loop nt u tries label i lastErr ev) = ev @ failed_rounds u i 0 @ [Fetch u]"
        by simp
      then show ?thesis by blast
    next
      case (Inl err)
      let ?ev = "ev' @ [Sleep (BACKOFF_BASE_MS * 2 ^ i)]"
      let ?L = "fetchRetry_loop nt u tries label (i + 1) (Some err) ?ev"
      have step: "fetchRetry_loop nt u tries label i lastErr ev = ?L"
        using True a Inl by (subst fetchRetry_loop.simps) simp
      from "1.IH" [OF True a [symmetric] Inl]
      obtain k where k: "(i + 1 + k = tries \<or> \<not> i + 1 < tries \<and> k = 0) \<and> (\<exists>e. fst ?L = Inl e) \<and>
           snd ?L = ?ev @ failed_rounds u (i + 1) k
         \<or> i + 1 + k < tries \<and> (\<exists>b. fst ?L = Inr b) \<and>
           snd ?L = ?ev @ failed_rounds u (i + 1) k @ [Fetch u]"
        by blast
      have fr: "?ev @ failed_rounds u (i + 1) k = ev @ failed_rounds u i (Suc k)"
        by (simp add: ev')
      from k show ?thesis
      proof
        assume h: "(i + 1 + k = tries \<or> \<not> i + 1 < tries \<and> k = 0) \<and> (\<exists>e. fst ?L = Inl e) \<and>
           snd ?L = ?ev @ failed_rounds u (i + 1) k"
        with True have "i + Suc k = tries" by auto
        with h fr have "(i + Suc k = tries \<or> \<not> i < tries \<and> Suc k = 0) \<and>
          (\<exists>e. fst (fetchRetry_loop nt u tries label i lastErr ev) = Inl e) \<and>
          snd (fetchRetry_loop nt u tries label i lastErr ev) = ev @ failed_rounds u i (Suc k)"
          by (simp only: step) simp
        then show ?thesis by blast
      next
        assume h: "i + 1 + k < tries \<and> (\<exists>b. fst ?L = Inr b) \<and>
           snd ?L = ?ev @ failed_rounds u (i + 1) k @ [Fetch u]"
        with fr have "i + Suc k < tries \<and>
          (\<exists>b. fst (fetchRetry_loop nt u tries label i lastErr ev) = Inr b) \<and>
          snd (fetchRetry_loop nt u tries label i lastErr ev) = ev @ failed_rounds u i (Suc k) @ [Fetch u]"
          by (simp only: step) simp
        then show ?thesis by blast
      qed
    qed
  qed
qed

lemma fetchRetry_ok_shape:
  assumes "fetchRetry nt u tries label ev = (Inr page, ev')"
  shows "\<exists>k<tries. ev' = ev @ failed_rounds u 0 k @ [Fetch u]"
  using loop_shape [where i = 0 and tries = tries and nt = nt and u = u and label = label
                     and lastErr = None and ev = ev] assms
  by (auto simp: fetchRetry_def)

lemma fetchRetry_failed_shape:
  assumes "fetchRetry nt u tries label ev = (Inl e, ev')"
  shows "ev' = ev @ failed_rounds u 0 tries"
  using loop_shape [where i = 0 and tries = tries and nt = nt and u = u and label = label
                     and lastErr = None and ev = ev] assms
  by (auto simp: fetchRetry_def)

lemma fetches_failed_rounds:
  "e \<in> set (failed_rounds u i k) \<Longrightarrow> is_fetch e \<Longrightarrow> e = Fetch u"
  by (induction k arbitrary: i) auto

lemma waited_three_rounds: "waited (failed_rounds u 0 MAX_RETRIES) = 14000"
  by (simp add: MAX_RETRIES_def numeral_3_eq_3 waited_def BACKOFF_BASE_MS_def)

lemma verdict_Valid_iff: "verdict_rule page = Valid \<longleftrightarrow> \<not> dead_marker page \<and> \<not> puZero page"
  using gate_is_rule [of page] by (auto split: if_splits)

lemma verdict_Invalid_iff: "verdict_rule page = Invalid \<longleftrightarrow> dead_marker page \<or> puZero page"
  using gate_is_rule [of page] by (auto split: if_splits)

lemma handleMC_lookup_failed:
  "fetchRetry (net env) (mcToSnapshotUrl mc) MAX_RETRIES ''snapshot'' [] = (Inl e, ev) \<Longrightarrow>
     handleMC cfg URL env mc = (Returned invalid, ev)"
  by (simp add: handleMC_def Let_def)

lemma handleMC_invalid_page:
  "fetchRetry (net env) (mcToSnapshotUrl mc) MAX_RETRIES ''snapshot'' [] = (Inr page, ev) \<Longrightarrow>
   verdict_rule page = Invalid \<Longrightarrow>
     handleMC cfg URL env mc = (Returned invalid, ev)"
  by (auto simp: handleMC_def Let_def verdict_Invalid_iff)

lemma handleMC_urls:
  "fetchRetry (net env) (mcToSnapshotUrl mc) MAX_RETRIES ''snapshot'' [] = (Inr page, ev) \<Longrightarrow>
   verdict_rule page = Valid \<Longrightarrow> MODE cfg = ''urls'' \<Longrightarrow>
     handleMC cfg URL env mc
       = (Returned \<lparr>valid = True, o_url = Some (mcToSnapshotUrl mc), o_row = None\<rparr>, ev)"
  by (simp add: handleMC_def Let_def verdict_Valid_iff)

lemma handleMC_extracts:
  "fetchRetry (net env) (mcToSnapshotUrl mc) MAX_RETRIES ''snapshot'' [] = (Inr page, ev) \<Longrightarrow>
   verdict_rule page = Valid \<Longrightarrow> MODE cfg \<noteq> ''urls'' \<Longrightarrow>
     handleMC cfg URL env mc
       = (case extractOne URL env (mcToSnapshotUrl mc) ev of
            (Killed, ev') \<Rightarrow> (Killed, ev')
          | (Returned (Inl err), ev') \<Rightarrow> (Returned invalid, ev')
          | (Returned (Inr r), ev') \<Rightarrow>
              (Returned \<lparr>valid = True, o_url = Some (mcToSnapshotUrl mc), o_row = Some r\<rparr>, ev'))"
  by (simp add: handleMC_def Let_def verdict_Valid_iff)

lemma extract_body_refetch_failed:
  "fetchRetry nt lookup MAX_RETRIES ''snapshot'' ev = (Inl e, ev2) \<Longrightarrow>
     extract_body URL nt lookup ev = (Inl e, ev2)"
  by (simp add: extract_body_def)

lemma extract_body_refetch_ok:
  assumes "fetchRetry nt lookup MAX_RETRIES ''snapshot'' ev = (Inr page2, ev2)"
  shows "\<exists>c ev3. extract_body URL nt lookup ev = (Inr c, ev3) \<and>
           mcNumber c = find_mcNumber page2 \<and> url c = lookup \<and>
           (find_smsLink URL lookup (exec_all True hrefRe page2) = [] \<longrightarrow>
              ev3 = ev2 \<and>
              c = \<lparr>email = [], mcNumber = find_mcNumber page2,
                   phone = extractPhoneAnywhere page2, url = lookup\<rparr>) \<and>
           (phone c = extractPhoneAnywhere page2 \<or>
            (\<exists>regPage. phone c = snd (registration_contact regPage) \<and> phone c \<noteq> []))"
proof (cases "find_smsLink URL lookup (exec_all True hrefRe page2) = []")
  case True
  with assms show ?thesis by (simp add: extract_body_def)
next
  case False
  let ?sms = "find_smsLink URL lookup (exec_all True hrefRe page2)"
  obtain r ev3 where d: "deep_fetch URL nt ?sms (extractPhoneAnywhere page2) (ev2 @ [Sleep 300]) = (r, ev3)"
    by (cases "deep_fetch URL nt ?sms (extractPhoneAnywhere page2) (ev2 @ [Sleep 300])")
  show ?thesis
  proof (cases r)
    case (Inl err)
    with assms False d show ?thesis by (simp add: extract_body_def)
  next
    case (Inr ep)
    obtain em ph where ep: "ep = (em, ph)" by (cases ep)
    have ph: "ph = extractPhoneAnywhere page2 \<or>
        (\<exists>regPage. ph = snd (registration_contact regPage) \<and> ph \<noteq> [])"
      using d Inr ep
      by (auto simp: deep_fetch_def Let_def split: prod.splits sum.splits if_splits)
         (metis snd_conv)
    with assms False d Inr ep show ?thesis by (simp add: extract_body_def)
  qed
qed

lemma snapshot_url_nonempty: "mcToSnapshotUrl mc \<noteq> []"
  by (simp add: mcToSnapshotUrl_def snapshot_prefix_def Let_def)


text \<open>
  Claim C3. When the lookup page of an identifier is invalid by the rule, \<open>handleMC\<close>
  returns the invalid outcome, which carries no record and leaves the accumulator as
  it is, and the task has done nothing but the lookup attempts: its events are at
  most \<open>MAX_RETRIES\<close> requests, all for the lookup URL, with the backoff sleeps between
  them.
\<close>

theorem invalid_identifier_stops:
  assumes "fetchRetry (net env) (mcToSnapshotUrl mc) MAX_RETRIES ''snapshot'' [] = (Inr page, ev)"
      and "verdict_rule page = Invalid"
  shows "handleMC cfg URL env mc = (Returned invalid, ev) \<and>
         \<not> valid invalid \<and> o_row invalid = None \<and> push_result st invalid = st \<and>
         (\<exists>k<MAX_RETRIES. ev = failed_rounds (mcToSnapshotUrl mc) 0 k @ [Fetch (mcToSnapshotUrl mc)]) \<and>
         (\<forall>e \<in> set ev. is_fetch e \<longrightarrow> e = Fetch (mcToSnapshotUrl mc)) \<and>
         requests ev \<le> MAX_RETRIES"
proof -
  from fetchRetry_ok_shape [OF assms(1)] obtain k
    where k: "k < MAX_RETRIES" "ev = failed_rounds (mcToSnapshotUrl mc) 0 k @ [Fetch (mcToSnapshotUrl mc)]"
    by auto
  have "\<forall>e \<in> set ev. is_fetch e \<longrightarrow> e = Fetch (mcToSnapshotUrl mc)"
    using k(2) fetches_failed_rounds by auto
  moreover have "requests ev \<le> MAX_RETRIES"
    using k by (simp add: requests_append requests_failed_rounds) (simp add: requests_def)
  ultimately show ?thesis
    using handleMC_invalid_page [OF assms] k
    by (auto simp: invalid_def push_result_def)
qed

lemma extractOne_refetch_failed:
  assumes "fetchRetry (net env) lookup MAX_RETRIES ''snapshot'' ev = (Inl e, ev2)"
  shows "extractOne URL env lookup ev
           = (if timely env then (Returned (Inl e), ev2) else (Killed, ev))"
proof -
  have "ev2 = ev @ failed_rounds lookup 0 MAX_RETRIES"
    by (rule fetchRetry_failed_shape [OF assms])
  then have "waited ev2 - waited ev = 14000"
    by (simp add: waited_append waited_three_rounds)
  then show ?thesis
    by (simp add: extractOne_def extract_body_refetch_failed [OF assms] EXTRACT_TIMEOUT_MS_def)
qed

text \<open>
  Claim C10. In full-extraction mode, for an identifier whose lookup page is valid,
  the extraction requests the lookup URL again with the same retry policy, right
  after the events of the first lookup. When this second lookup fails on all its
  attempts, the task returns the invalid outcome (or its timer ends the process): no
  record. When it succeeds, the registry number of the record is searched in the page
  fetched the second time, and so is the phone unless the registration page gives one.
\<close>

theorem extraction_refetches_lookup:
  assumes "fetchRetry (net env) (mcToSnapshotUrl mc) MAX_RETRIES ''snapshot'' [] = (Inr page, ev)"
      and "verdict_rule page = Valid"
      and "MODE cfg \<noteq> ''urls''"
      and "fetchRetry (net env) (mcToSnapshotUrl mc) MAX_RETRIES ''snapshot'' ev = (r2, ev2)"
  shows "(\<exists>rest. ev2 = ev @ Fetch (mcToSnapshotUrl mc) # rest) \<and>
         (\<forall>err. r2 = Inl err \<longrightarrow>
            handleMC cfg URL env mc
              = (if timely env then (Returned invalid, ev2) else (Killed, ev))) \<and>
         (\<forall>page2 out ev'. r2 = Inr page2 \<and> handleMC cfg URL env mc = (Returned out, ev') \<longrightarrow>
            valid out \<and>
            (\<exists>c. o_row out = Some c \<and> mcNumber c = find_mcNumber page2 \<and>
                 url c = mcToSnapshotUrl mc \<and>
                 (find_smsLink URL (mcToSnapshotUrl mc) (exec_all True hrefRe page2) = [] \<longrightarrow>
                    c = \<lparr>email = [], mcNumber = find_mcNumber page2,
                         phone = extractPhoneAnywhere page2, url = mcToSnapshotUrl mc\<rparr>) \<and>
                 (phone c = extractPhoneAnywhere page2 \<or>
                  (\<exists>regPage. phone c = snd (registration_contact regPage) \<and> phone c \<noteq> []))))"
proof (intro conjI allI impI)
  let ?u = "mcToSnapshotUrl mc"
  show "\<exists>rest. ev2 = ev @ Fetch ?u # rest"
  proof (cases r2)
    case (Inl e)
    with assms(4) have "ev2 = ev @ failed_rounds ?u 0 MAX_RETRIES"
      by (simp add: fetchRetry_failed_shape)
    then show ?thesis by (simp add: MAX_RETRIES_def numeral_3_eq_3)
  next
    case (Inr p)
    with assms(4) obtain k where "ev2 = ev @ failed_rounds ?u 0 k @ [Fetch ?u]"
      using fetchRetry_ok_shape by blast
    then show ?thesis by (cases k) auto
  qed
next
  fix err assume "r2 = Inl err"
  with assms(4) have f: "fetchRetry (net env) (mcToSnapshotUrl mc) MAX_RETRIES ''snapshot'' ev = (Inl err, ev2)"
    by simp
  show "handleMC cfg URL env mc = (if timely env then (Returned invalid, ev2) else (Killed, ev))"
    by (simp add: handleMC_extracts [OF assms(1-3)] extractOne_refetch_failed [OF f])
next
  fix page2 out ev'
  assume h: "r2 = Inr page2 \<and> handleMC cfg URL env mc = (Returned out, ev')"
  with assms(4) have f: "fetchRetry (net env) (mcToSnapshotUrl mc) MAX_RETRIES ''snapshot'' ev = (Inr page2, ev2)"
    by simp
  from extract_body_refetch_ok [OF f, of URL] obtain c ev3
    where b: "extract_body URL (net env) (mcToSnapshotUrl mc) ev = (Inr c, ev3)"
      and c: "mcNumber c = find_mcNumber page2" "url c = mcToSnapshotUrl mc"
        "find_smsLink URL (mcToSnapshotUrl mc) (exec_all True hrefRe page2) = [] \<longrightarrow>
           ev3 = ev2 \<and> c = \<lparr>email = [], mcNumber = find_mcNumber page2,
                phone = extractPhoneAnywhere page2, url = mcToSnapshotUrl mc\<rparr>"
        "phone c = extractPhoneAnywhere page2 \<or>
          (\<exists>regPage. phone c = snd (registration_contact regPage) \<and> phone c \<noteq> [])"
    by blast
  from h have "out = \<lparr>valid = True, o_url = Some (mcToSnapshotUrl mc), o_row = Some c\<rparr>"
    by (auto simp: handleMC_extracts [OF assms(1-3)] extractOne_def b split: if_splits)
  with c show "valid out" 
    and "\<exists>c. o_row out = Some c \<and> mcNumber c = find_mcNumber page2 \<and>
                 url c = mcToSnapshotUrl mc \<and>
                 (find_smsLink URL (mcToSnapshotUrl mc) (exec_all True hrefRe page2) = [] \<longrightarrow>
                    c = \<lparr>email = [], mcNumber = find_mcNumber page2,
                         phone = extractPhoneAnywhere page2, url = mcToSnapshotUrl mc\<rparr>) \<and>
                 (phone c = extractPhoneAnywhere page2 \<or>
                  (\<exists>regPage. phone c = snd (registration_contact regPage) \<and> phone c \<noteq> []))"
    by auto
qed

lemma first_fetch_ok:
  "nt (requests ev) u = Replied status body \<Longrightarrow> ok status \<Longrightarrow>
     fetchRetry nt u MAX_RETRIES label ev = (Inr body, ev @ [Fetch u])"
  by (simp add: fetchRetry_def MAX_RETRIES_def loop_step_success)

lemma three_fetches_fail:
  assumes "\<forall>j<3. failure label (nt (requests ev + j) u) \<noteq> None"
      and "failure label (nt (requests ev + 2) u) = Some e"
  shows "fetchRetry nt u MAX_RETRIES label ev = (Inl e, ev @ failed_rounds u 0 3)"
proof -
  have "fetchRetry_loop nt u 3 label 0 None ev
     = (Inl (case (3::nat) of 0 \<Rightarrow> (case None of Some e \<Rightarrow> e | None \<Rightarrow> RetryFailed label)
              | Suc k' \<Rightarrow> the (failure label (nt (requests ev + k') u))),
        ev @ failed_rounds u 0 3)"
    using assms(1) by (intro loop_all_fail) auto
  with assms(2) show ?thesis
    by (simp add: fetchRetry_def MAX_RETRIES_def numeral_3_eq_3)
qed



theorem invalid_identifier_stops_witness:
  "handleMC \<lparr>CONCURRENCY = 6, DELAY = 300, BATCH_SIZE = 500, WAIT_SECONDS = 0, MODE = ''both''\<rparr>
       (\<lambda>h b. None)
       \<lparr>net = (\<lambda>k u. if k = 0 then Rejected ''reset'' else Replied 200 ''This record inactive.''),
        timely = True\<rparr> ''1''
     = (Returned invalid,
        [Fetch (mcToSnapshotUrl ''1''), Sleep 2000, Fetch (mcToSnapshotUrl ''1'')]) \<and>
   push_result start_state invalid = start_state"
proof -
  let ?cfg = "\<lparr>CONCURRENCY = 6, DELAY = 300, BATCH_SIZE = 500, WAIT_SECONDS = 0, MODE = ''both''\<rparr>"
  let ?nt = "\<lambda>(k::nat) (u::string). if k = 0 then Rejected ''reset'' else Replied 200 ''This record inactive.''"
  let ?e = "\<lparr>net = ?nt, timely = True\<rparr>"
  let ?u = "mcToSnapshotUrl ''1''"
  have v: "verdict_rule ''This record inactive.'' = Invalid" by code_simp
  have "fetchRetry_loop ?nt ?u 3 ''snapshot'' 0 None []
      = (Inr ''This record inactive.'', [] @ failed_rounds ?u 0 1 @ [Fetch ?u])"
    by (rule loop_succeeds_after [where status = 200]) (simp_all add: requests_def ok_def)
  then have f: "fetchRetry (net ?e) ?u MAX_RETRIES ''snapshot'' []
      = (Inr ''This record inactive.'', [Fetch ?u, Sleep 2000, Fetch ?u])"
    by (simp add: fetchRetry_def MAX_RETRIES_def BACKOFF_BASE_MS_def)
  from invalid_identifier_stops [OF f v, of ?cfg "\<lambda>h b. None" start_state]
  show ?thesis by blast
qed

theorem extraction_refetches_lookup_witness:
  "handleMC \<lparr>CONCURRENCY = 6, DELAY = 300, BATCH_SIZE = 500, WAIT_SECONDS = 0, MODE = ''both''\<rparr>
       (\<lambda>h b. None)
       \<lparr>net = (\<lambda>k u. if k = 0 then Replied 200 ''Power Units: 3'' else Replied 503 []),
        timely = True\<rparr> ''1''
     = (Returned invalid,
        [Fetch (mcToSnapshotUrl ''1''), Fetch (mcToSnapshotUrl ''1''), Sleep 2000,
         Fetch (mcToSnapshotUrl ''1''), Sleep 4000, Fetch (mcToSnapshotUrl ''1''), Sleep 8000]) \<and>
   handleMC \<lparr>CONCURRENCY = 6, DELAY = 300, BATCH_SIZE = 500, WAIT_SECONDS = 0, MODE = ''both''\<rparr>
       (\<lambda>h b. None)
       \<lparr>net = (\<lambda>k u. if k = 0 then Replied 200 ''Power Units: 3 MC-999999''
                      else Replied 200 ''MC-123456 (555) 123-4567''),
        timely = True\<rparr> ''1''
     = (Returned \<lparr>valid = True, o_url = Some (mcToSnapshotUrl ''1''),
                  o_row = Some \<lparr>email = [], mcNumber = ''MC-123456'',
                                phone = ''(555) 123-4567'', url = mcToSnapshotUrl ''1''\<rparr>\<rparr>,
        [Fetch (mcToSnapshotUrl ''1''), Fetch (mcToSnapshotUrl ''1'')]) \<and>
   find_mcNumber ''Power Units: 3 MC-999999'' = ''MC-999999''"
proof -
  let ?cfg = "\<lparr>CONCURRENCY = 6, DELAY = 300, BATCH_SIZE = 500, WAIT_SECONDS = 0, MODE = ''both''\<rparr>"
  let ?nt = "\<lambda>(k::nat) (u::string). if k = 0 then Replied 200 ''Power Units: 3'' else Replied 503 []"
  let ?e = "\<lparr>net = ?nt, timely = True\<rparr>"
  let ?u = "mcToSnapshotUrl ''1''"
  have v: "verdict_rule ''Power Units: 3'' = Valid" by code_simp
  have m: "MODE ?cfg \<noteq> ''urls''" by simp
  have f: "fetchRetry (net ?e) ?u MAX_RETRIES ''snapshot'' [] = (Inr ''Power Units: 3'', [Fetch ?u])"
    using first_fetch_ok [of "net ?e" "[]" ?u 200 "''Power Units: 3''" "''snapshot''"]
    by (simp add: ok_def requests_def)
  have "fetchRetry ?nt ?u MAX_RETRIES ''snapshot'' [Fetch ?u]
      = (Inl (HttpError ''snapshot'' 503), [Fetch ?u] @ failed_rounds ?u 0 3)"
    by (rule three_fetches_fail) (simp_all add: requests_def ok_def)
  then have g: "fetchRetry (net ?e) ?u MAX_RETRIES ''snapshot'' [Fetch ?u]
      = (Inl (HttpError ''snapshot'' 503),
         [Fetch ?u, Fetch ?u, Sleep 2000, Fetch ?u, Sleep 4000, Fetch ?u, Sleep 8000])"
    by (simp add: numeral_3_eq_3 BACKOFF_BASE_MS_def)
  from extraction_refetches_lookup [OF f v m g, of "\<lambda>h b. None"]
  have 1: "handleMC ?cfg (\<lambda>h b. None) ?e ''1''
     = (Returned invalid,
        [Fetch ?u, Fetch ?u, Sleep 2000, Fetch ?u, Sleep 4000, Fetch ?u, Sleep 8000])"
    by simp
  let ?p1 = "''Power Units: 3 MC-999999''"
  let ?p2 = "''MC-123456 (555) 123-4567''"
  let ?nt2 = "\<lambda>(k::nat) (u::string). if k = 0 then Replied 200 ?p1 else Replied 200 ?p2"
  let ?e2 = "\<lparr>net = ?nt2, timely = True\<rparr>"
  let ?c = "\<lparr>email = [], mcNumber = ''MC-123456'', phone = ''(555) 123-4567'', url = ?u\<rparr>"
  let ?out = "\<lparr>valid = True, o_url = Some ?u, o_row = Some ?c\<rparr>"
  have v2: "verdict_rule ?p1 = Valid" by code_simp
  have f2: "fetchRetry (net ?e2) ?u MAX_RETRIES ''snapshot'' [] = (Inr ?p1, [Fetch ?u])"
    using first_fetch_ok [of "net ?e2" "[]" ?u 200 ?p1 "''snapshot''"]
    by (simp add: ok_def requests_def)
  have g2: "fetchRetry (net ?e2) ?u MAX_RETRIES ''snapshot'' [Fetch ?u] = (Inr ?p2, [Fetch ?u, Fetch ?u])"
    using first_fetch_ok [of "net ?e2" "[Fetch ?u]" ?u 200 ?p2 "''snapshot''"]
    by (simp add: ok_def requests_def)
  have p1: "find_mcNumber ?p2 = ''MC-123456''" by code_simp
  have p2: "extractPhoneAnywhere ?p2 = ''(555) 123-4567''" by code_simp
  have p3: "exec_all True hrefRe ?p2 = []" by code_simp
  have p4: "find_mcNumber ?p1 = ''MC-999999''" by code_simp
  have b: "extract_body (\<lambda>h b. None) (net ?e2) ?u [Fetch ?u] = (Inr ?c, [Fetch ?u, Fetch ?u])"
    using g2 by (simp add: extract_body_def p1 p2 p3)
  have x: "extractOne (\<lambda>h b. None) ?e2 ?u [Fetch ?u] = (Returned (Inr ?c), [Fetch ?u, Fetch ?u])"
    using b by (simp add: extractOne_def waited_def EXTRACT_TIMEOUT_MS_def)
  have h: "handleMC ?cfg (\<lambda>h b. None) ?e2 ''1'' = (Returned ?out, [Fetch ?u, Fetch ?u])"
    by (simp add: handleMC_extracts [OF f2 v2 m] x)
  from extraction_refetches_lookup [OF f2 v2 m g2, of "\<lambda>h b. None"] h
  have "\<exists>c. o_row ?out = Some c \<and> mcNumber c = find_mcNumber ?p2" by blast
  with h p1 have 2: "handleMC ?cfg (\<lambda>h b. None) ?e2 ''1'' = (Returned ?out, [Fetch ?u, Fetch ?u])"
    by simp
  from 1 2 p4 show ?thesis by blast
qed



section \<open>The scheduler: wave and batch iteration\<close>

lemma waves_rule_aux:
  assumes "waves cfg' w' mcList' e' i st = Some res"
  shows "cfg' = cfg \<and> w' = w \<and> mcList' = mcList \<and> e' = e \<longrightarrow> P i st \<longrightarrow>
         (\<forall>i st results. P i st \<and> i < e \<and>
             those_returned (dispatch cfg w i (wave_slice cfg mcList e i)) = Some results \<longrightarrow>
             P (i + length (wave_slice cfg mcList e i)) (wave_step cfg st results)) \<longrightarrow>
         (\<exists>i'. P i' (state_of res) \<and> (\<forall>st'. res = Finished st' \<longrightarrow> \<not> i' < e) \<and>
              (\<forall>st'. res = Crashed st' \<longrightarrow> i' < e \<and>
                 those_returned (dispatch cfg w i' (wave_slice cfg mcList e i')) = None))"
proof (rule waves.raw_induct
    [where P = "\<lambda>cfg' w' mcList' e' i st res.
         cfg' = cfg \<and> w' = w \<and> mcList' = mcList \<and> e' = e \<longrightarrow> P i st \<longrightarrow>
         (\<forall>i st results. P i st \<and> i < e \<and>
             those_returned (dispatch cfg w i (wave_slice cfg mcList e i)) = Some results \<longrightarrow>
             P (i + length (wave_slice cfg mcList e i)) (wave_step cfg st results)) \<longrightarrow>
         (\<exists>i'. P i' (state_of res) \<and> (\<forall>st'. res = Finished st' \<longrightarrow> \<not> i' < e) \<and>
              (\<forall>st'. res = Crashed st' \<longrightarrow> i' < e \<and>
                 those_returned (dispatch cfg w i' (wave_slice cfg mcList e i')) = None))",
     OF _ assms])
  fix wv cfg' w' mcList' e' i st res
  assume 1: "\<And>cfg' w' mcList' e' i st res. wv cfg' w' mcList' e' i st = Some res \<Longrightarrow>
         cfg' = cfg \<and> w' = w \<and> mcList' = mcList \<and> e' = e \<longrightarrow> P i st \<longrightarrow>
         (\<forall>i st results. P i st \<and> i < e \<and>
             those_returned (dispatch cfg w i (wave_slice cfg mcList e i)) = Some results \<longrightarrow>
             P (i + length (wave_slice cfg mcList e i)) (wave_step cfg st results)) \<longrightarrow>
         (\<exists>i'. P i' (state_of res) \<and> (\<forall>st'. res = Finished st' \<longrightarrow> \<not> i' < e) \<and>
              (\<forall>st'. res = Crashed st' \<longrightarrow> i' < e \<and>
                 those_returned (dispatch cfg w i' (wave_slice cfg mcList e i')) = None))"
    "(if i < e' then
        (let slice = wave_slice cfg' mcList' e' i
         in case those_returned (dispatch cfg' w' i slice) of
              None \<Rightarrow> Some (Crashed st)
            | Some results \<Rightarrow>
                wv cfg' w' mcList' e' (i + length slice) (wave_step cfg' st results))
      else Some (Finished st)) = Some res"
  show "cfg' = cfg \<and> w' = w \<and> mcList' = mcList \<and> e' = e \<longrightarrow> P i st \<longrightarrow>
         (\<forall>i st results. P i st \<and> i < e \<and>
             those_returned (dispatch cfg w i (wave_slice cfg mcList e i)) = Some results \<longrightarrow>
             P (i + length (wave_slice cfg mcList e i)) (wave_step cfg st results)) \<longrightarrow>
         (\<exists>i'. P i' (state_of res) \<and> (\<forall>st'. res = Finished st' \<longrightarrow> \<not> i' < e) \<and>
              (\<forall>st'. res = Crashed st' \<longrightarrow> i' < e \<and>
                 those_returned (dispatch cfg w i' (wave_slice cfg mcList e i')) = None))"
  proof (intro impI, elim conjE)
    assume eq: "cfg' = cfg" "w' = w" "mcList' = mcList" "e' = e"
      and P: "P i st"
      and step: "\<forall>i st results. P i st \<and> i < e \<and>
             those_returned (dispatch cfg w i (wave_slice cfg mcList e i)) = Some results \<longrightarrow>
             P (i + length (wave_slice cfg mcList e i)) (wave_step cfg st results)"
    show "\<exists>i'. P i' (state_of res) \<and> (\<forall>st'. res = Finished st' \<longrightarrow> \<not> i' < e) \<and>
              (\<forall>st'. res = Crashed st' \<longrightarrow> i' < e \<and>
                 those_returned (dispatch cfg w i' (wave_slice cfg mcList e i')) = None)"
    proof (cases "i < e")
      case False
      with 1(2) eq have "res = Finished st" by simp
      with P False have "P i (state_of res) \<and> (\<forall>st'. res = Finished st' \<longrightarrow> \<not> i < e) \<and>
          (\<forall>st'. res = Crashed st' \<longrightarrow> i < e \<and>
             those_returned (dispatch cfg w i (wave_slice cfg mcList e i)) = None)" by simp
      then show ?thesis ..
    next
      case True
      show ?thesis
      proof (cases "those_returned (dispatch cfg w i (wave_slice cfg mcList e i))")
        case None
        with 1(2) eq True have "res = Crashed st" by (simp add: Let_def)
        with P True None have "P i (state_of res) \<and> (\<forall>st'. res = Finished st' \<longrightarrow> \<not> i < e) \<and>
          (\<forall>st'. res = Crashed st' \<longrightarrow> i < e \<and>
             those_returned (dispatch cfg w i (wave_slice cfg mcList e i)) = None)" by simp
        then show ?thesis ..
      next
        case (Some results)
        with 1(2) eq True
        have r: "wv cfg w mcList e (i + length (wave_slice cfg mcList e i)) (wave_step cfg st results)
                  = Some res"
          by (simp add: Let_def)
        have P2: "P (i + length (wave_slice cfg mcList e i)) (wave_step cfg st results)"
          by (rule step [rule_format, OF conjI [OF P conjI [OF True Some]]])
        have t: "cfg = cfg \<and> w = w \<and> mcList = mcList \<and> e = e" by simp
        from 1(1) [OF r, THEN mp, OF t, THEN mp, OF P2, THEN mp, OF step] show ?thesis .
      qed
    qed
  qed
qed

lemma waves_rule:
  assumes "waves cfg w mcList e i st = Some res"
      and "P i st"
      and "\<And>i st results. P i st \<Longrightarrow> i < e \<Longrightarrow>
             those_returned (dispatch cfg w i (wave_slice cfg mcList e i)) = Some results \<Longrightarrow>
             P (i + length (wave_slice cfg mcList e i)) (wave_step cfg st results)"
  shows "\<exists>i'. P i' (state_of res) \<and> (\<forall>st'. res = Finished st' \<longrightarrow> \<not> i' < e) \<and>
              (\<forall>st'. res = Crashed st' \<longrightarrow> i' < e \<and>
                 those_returned (dispatch cfg w i' (wave_slice cfg mcList e i')) = None)"
proof -
  have s: "\<forall>i st results. P i st \<and> i < e \<and>
             those_returned (dispatch cfg w i (wave_slice cfg mcList e i)) = Some results \<longrightarrow>
             P (i + length (wave_slice cfg mcList e i)) (wave_step cfg st results)"
  proof (intro allI impI, elim conjE)
    fix i st results
    assume "P i st" "i < e"
      "those_returned (dispatch cfg w i (wave_slice cfg mcList e i)) = Some results"
    then show "P (i + length (wave_slice cfg mcList e i)) (wave_step cfg st results)"
      by (rule assms(3))
  qed
  have t: "cfg = cfg \<and> w = w \<and> mcList = mcList \<and> e = e" by simp
  note a = waves_rule_aux [OF assms(1), of cfg w mcList e P]
  from a [THEN mp, OF t, THEN mp, OF assms(2), THEN mp, OF s] show ?thesis .
qed

lemma batches_rule_aux:
  assumes "batches cfg' w' mcList' start st = Some res"
  shows "cfg' = cfg \<and> w' = w \<and> mcList' = mcList \<longrightarrow> Q start st \<longrightarrow>
         (\<forall>start st st1. Q start st \<and> start < length mcList \<and>
             waves cfg w mcList (min (length mcList) (start + BATCH_SIZE cfg)) start st
               = Some (Finished st1) \<longrightarrow>
             Q (start + BATCH_SIZE cfg)
               (batch_wait cfg mcList (min (length mcList) (start + BATCH_SIZE cfg))
                  (checkpoint w st1))) \<longrightarrow>
         (\<forall>start st st1. Q start st \<and> start < length mcList \<and>
             waves cfg w mcList (min (length mcList) (start + BATCH_SIZE cfg)) start st
               = Some (Crashed st1) \<longrightarrow> R st1) \<longrightarrow>
         (case res of
            Finished st' \<Rightarrow> \<exists>s. Q s st' \<and> \<not> s < length mcList
          | Crashed st' \<Rightarrow> R st')"
proof (rule batches.raw_induct
    [where P = "\<lambda>cfg' w' mcList' start st res.
         cfg' = cfg \<and> w' = w \<and> mcList' = mcList \<longrightarrow> Q start st \<longrightarrow>
         (\<forall>start st st1. Q start st \<and> start < length mcList \<and>
             waves cfg w mcList (min (length mcList) (start + BATCH_SIZE cfg)) start st
               = Some (Finished st1) \<longrightarrow>
             Q (start + BATCH_SIZE cfg)
               (batch_wait cfg mcList (min (length mcList) (start + BATCH_SIZE cfg))
                  (checkpoint w st1))) \<longrightarrow>
         (\<forall>start st st1. Q start st \<and> start < length mcList \<and>
             waves cfg w mcList (min (length mcList) (start + BATCH_SIZE cfg)) start st
               = Some (Crashed st1) \<longrightarrow> R st1) \<longrightarrow>
         (case res of
            Finished st' \<Rightarrow> \<exists>s. Q s st' \<and> \<not> s < length mcList
          | Crashed st' \<Rightarrow> R st')",
     OF _ assms])
  fix bt cfg' w' mcList' start st res
  assume 1: "\<And>cfg' w' mcList' start st res. bt cfg' w' mcList' start st = Some res \<Longrightarrow>
         cfg' = cfg \<and> w' = w \<and> mcList' = mcList \<longrightarrow> Q start st \<longrightarrow>
         (\<forall>start st st1. Q start st \<and> start < length mcList \<and>
             waves cfg w mcList (min (length mcList) (start + BATCH_SIZE cfg)) start st
               = Some (Finished st1) \<longrightarrow>
             Q (start + BATCH_SIZE cfg)
               (batch_wait cfg mcList (min (length mcList) (start + BATCH_SIZE cfg))
                  (checkpoint w st1))) \<longrightarrow>
         (\<forall>start st st1. Q start st \<and> start < length mcList \<and>
             waves cfg w mcList (min (length mcList) (start + BATCH_SIZE cfg)) start st
               = Some (Crashed st1) \<longrightarrow> R st1) \<longrightarrow>
         (case res of
            Finished st' \<Rightarrow> \<exists>s. Q s st' \<and> \<not> s < length mcList
          | Crashed st' \<Rightarrow> R st')"
    and 2: "(if start < length mcList' then
        (let end = min (length mcList') (start + BATCH_SIZE cfg')
         in case waves cfg' w' mcList' end start st of
              None \<Rightarrow> None
            | Some (Finished st1) \<Rightarrow>
                bt cfg' w' mcList' (start + BATCH_SIZE cfg')
                  (batch_wait cfg' mcList' end (checkpoint w' st1))
            | Some (Crashed st1) \<Rightarrow> Some (Crashed st1))
      else Some (Finished st)) = Some res"
  show "cfg' = cfg \<and> w' = w \<and> mcList' = mcList \<longrightarrow> Q start st \<longrightarrow>
         (\<forall>start st st1. Q start st \<and> start < length mcList \<and>
             waves cfg w mcList (min (length mcList) (start + BATCH_SIZE cfg)) start st
               = Some (Finished st1) \<longrightarrow>
             Q (start + BATCH_SIZE cfg)
               (batch_wait cfg mcList (min (length mcList) (start + BATCH_SIZE cfg))
                  (checkpoint w st1))) \<longrightarrow>
         (\<forall>start st st1. Q start st \<and> start < length mcList \<and>
             waves cfg w mcList (min (length mcList) (start + BATCH_SIZE cfg)) start st
               = Some (Crashed st1) \<longrightarrow> R st1) \<longrightarrow>
         (case res of
            Finished st' \<Rightarrow> \<exists>s. Q s st' \<and> \<not> s < length mcList
          | Crashed st' \<Rightarrow> R st')"
  proof (intro impI, elim conjE)
    assume eq: "cfg' = cfg" "w' = w" "mcList' = mcList"
      and Q: "Q start st"
      and step: "\<forall>start st st1. Q start st \<and> start < length mcList \<and>
             waves cfg w mcList (min (length mcList) (start + BATCH_SIZE cfg)) start st
               = Some (Finished st1) \<longrightarrow>
             Q (start + BATCH_SIZE cfg)
               (batch_wait cfg mcList (min (length mcList) (start + BATCH_SIZE cfg))
                  (checkpoint w st1))"
      and crash: "\<forall>start st st1. Q start st \<and> start < length mcList \<and>
             waves cfg w mcList (min (length mcList) (start + BATCH_SIZE cfg)) start st
               = Some (Crashed st1) \<longrightarrow> R st1"
    let ?e = "min (length mcList) (start + BATCH_SIZE cfg)"
    show "case res of
            Finished st' \<Rightarrow> \<exists>s. Q s st' \<and> \<not> s < length mcList
          | Crashed st' \<Rightarrow> R st'"
    proof (cases "start < length mcList")
      case False
      with 2 eq have "res = Finished st" by simp
      moreover from Q False have "\<exists>s. Q s st \<and> \<not> s < length mcList" by blast
      ultimately show ?thesis by simp
    next
      case True
      show ?thesis
      proof (cases "waves cfg w mcList ?e start st")
        case None
        with 2 eq True show ?thesis by (simp add: Let_def)
      next
        case (Some r)
        show ?thesis
        proof (cases r)
          case (Crashed st1)
          with Some 2 eq True have "res = Crashed st1" by (simp add: Let_def)
          moreover have "R st1"
            using crash [rule_format, OF conjI [OF Q conjI [OF True]]] Some Crashed by simp
          ultimately show ?thesis by simp
        next
          case (Finished st1)
          with Some 2 eq True
          have r: "bt cfg w mcList (start + BATCH_SIZE cfg) (batch_wait cfg mcList ?e (checkpoint w st1))
                    = Some res"
            by (simp add: Let_def)
          have Q2: "Q (start + BATCH_SIZE cfg) (batch_wait cfg mcList ?e (checkpoint w st1))"
            using step [rule_format, OF conjI [OF Q conjI [OF True]]] Some Finished by simp
          have t: "cfg = cfg \<and> w = w \<and> mcList = mcList" by simp
          from 1 [OF r, THEN mp, OF t, THEN mp, OF Q2, THEN mp, OF step, THEN mp, OF crash]
          show ?thesis .
        qed
      qed
    qed
  qed
qed

lemma batches_rule:
  assumes "batches cfg w mcList start st = Some res"
      and "Q start st"
      and "\<And>start st st1. Q start st \<Longrightarrow> start < length mcList \<Longrightarrow>
             waves cfg w mcList (min (length mcList) (start + BATCH_SIZE cfg)) start st
               = Some (Finished st1) \<Longrightarrow>
             Q (start + BATCH_SIZE cfg)
               (batch_wait cfg mcList (min (length mcList) (start + BATCH_SIZE cfg))
                  (checkpoint w st1))"
      and "\<And>start st st1. Q start st \<Longrightarrow> start < length mcList \<Longrightarrow>
             waves cfg w mcList (min (length mcList) (start + BATCH_SIZE cfg)) start st
               = Some (Crashed st1) \<Longrightarrow> R st1"
  shows "case res of
            Finished st' \<Rightarrow> \<exists>s. Q s st' \<and> \<not> s < length mcList
          | Crashed st' \<Rightarrow> R st'"
proof -
  have s: "\<forall>start st st1. Q start st \<and> start < length mcList \<and>
             waves cfg w mcList (min (length mcList) (start + BATCH_SIZE cfg)) start st
               = Some (Finished st1) \<longrightarrow>
             Q (start + BATCH_SIZE cfg)
               (batch_wait cfg mcList (min (length mcList) (start + BATCH_SIZE cfg))
                  (checkpoint w st1))"
  proof (intro allI impI, elim conjE)
    fix start st st1
    assume "Q start st" "start < length mcList"
      "waves cfg w mcList (min (length mcList) (start + BATCH_SIZE cfg)) start st = Some (Finished st1)"
    then show "Q (start + BATCH_SIZE cfg)
               (batch_wait cfg mcList (min (length mcList) (start + BATCH_SIZE cfg))
                  (checkpoint w st1))"
      by (rule assms(3))
  qed
  have c: "\<forall>start st st1. Q start st \<and> start < length mcList \<and>
             waves cfg w mcList (min (length mcList) (start + BATCH_SIZE cfg)) start st
               = Some (Crashed st1) \<longrightarrow> R st1"
  proof (intro allI impI, elim conjE)
    fix start st st1
    assume "Q start st" "start < length mcList"
      "waves cfg w mcList (min (length mcList) (start + BATCH_SIZE cfg)) start st = Some (Crashed st1)"
    then show "R st1" by (rule assms(4))
  qed
  have t: "cfg = cfg \<and> w = w \<and> mcList = mcList" by simp
  note a = batches_rule_aux [OF assms(1), of cfg w mcList Q R]
  from a [THEN mp, OF t, THEN mp, OF assms(2), THEN mp, OF s, THEN mp, OF c] show ?thesis .
qed

lemma wave_slice_length:
  "i < e \<Longrightarrow> e \<le> length mcList \<Longrightarrow>
     length (wave_slice cfg mcList e i) = min (e - i) (CONCURRENCY cfg)"
  by (auto simp: wave_slice_def min_def)

lemma waves_total:
  "0 < CONCURRENCY cfg \<Longrightarrow> e \<le> length mcList \<Longrightarrow> \<exists>res. waves cfg w mcList e i st = Some res"
proof (induction "e - i" arbitrary: i st rule: less_induct)
  case less
  show ?case
  proof (cases "i < e")
    case False
    then show ?thesis by (subst waves.simps) simp
  next
    case True
    let ?n = "length (wave_slice cfg mcList e i)"
    have n: "0 < ?n" "i + ?n \<le> e"
      using wave_slice_length [OF True less.prems(2), of cfg] less.prems(1) True by auto
    show ?thesis
    proof (cases "those_returned (dispatch cfg w i (wave_slice cfg mcList e i))")
      case None
      with True show ?thesis by (subst waves.simps) (simp add: Let_def)
    next
      case (Some results)
      have "e - (i + ?n) < e - i" using n True by linarith
      from less.hyps [OF this less.prems(1,2)]
      obtain res where "waves cfg w mcList e (i + ?n) (wave_step cfg st results) = Some res"
        by blast
      with True Some show ?thesis by (subst waves.simps) (simp add: Let_def)
    qed
  qed
qed

lemma batches_total:
  "0 < CONCURRENCY cfg \<Longrightarrow> 0 < BATCH_SIZE cfg \<Longrightarrow>
     \<exists>res. batches cfg w mcList start st = Some res"
proof (induction "length mcList - start" arbitrary: start st rule: less_induct)
  case less
  show ?case
  proof (cases "start < length mcList")
    case False
    then show ?thesis by (subst batches.simps) simp
  next
    case True
    let ?e = "min (length mcList) (start + BATCH_SIZE cfg)"
    from waves_total [OF less.prems(1), of ?e mcList w start st]
    obtain r where r: "waves cfg w mcList ?e start st = Some r" by auto
    show ?thesis
    proof (cases r)
      case (Crashed st1)
      with r True show ?thesis by (subst batches.simps) (simp add: Let_def)
    next
      case (Finished st1)
      have "length mcList - (start + BATCH_SIZE cfg) < length mcList - start"
        using True less.prems(2) by simp
      from less.hyps [OF this less.prems]
      obtain res where "batches cfg w mcList (start + BATCH_SIZE cfg)
          (batch_wait cfg mcList ?e (checkpoint w st1)) = Some res"
        by blast
      with r Finished True show ?thesis by (subst batches.simps) (simp add: Let_def)
    qed
  qed
qed

lemma run_total:
  "0 < CONCURRENCY cfg \<Longrightarrow> 0 < BATCH_SIZE cfg \<Longrightarrow> \<exists>res. run cfg w mcList = Some res"
  using batches_total [of cfg w mcList 0 start_state]
  by (auto simp: run_def split: run_result.splits)


section \<open>What every step keeps\<close>

lemma push_result_fields:
  "rows (push_result st r) = rows st @ out_rows r"
  "validUrls (push_result st r) = validUrls st @ out_urls r"
  "trace (push_result st r) = trace st"
  by (auto simp: push_result_def out_rows_def out_urls_def Let_def split: option.splits)

lemma foldl_push_fields:
  "rows (foldl push_result st rs) = rows st @ concat (map out_rows rs)"
  "validUrls (foldl push_result st rs) = validUrls st @ concat (map out_urls rs)"
  "trace (foldl push_result st rs) = trace st"
  by (induction rs arbitrary: st) (simp_all add: push_result_fields)

lemma wave_step_fields:
  "rows (wave_step cfg st results) = rows st @ concat (map out_rows (map fst results))"
  "validUrls (wave_step cfg st results) = validUrls st @ concat (map out_urls (map fst results))"
  "trace (wave_step cfg st results) = trace st @ [WaveDone results, Paused (max 50 (DELAY cfg))]"
  by (simp_all add: wave_step_def foldl_push_fields)

lemma checkpoint_fields:
  "rows (checkpoint w st) = rows st"
  "validUrls (checkpoint w st) = validUrls st"
  "trace (checkpoint w st)
     = trace st @ [Written (csv_name (iso_time w (checkpoints (trace st)))) (to_csv (rows st))]"
  by (simp_all add: checkpoint_def)

lemma batch_wait_fields:
  "rows (batch_wait cfg mcList e st) = rows st"
  "validUrls (batch_wait cfg mcList e st) = validUrls st"
  "trace (batch_wait cfg mcList e st)
     = trace st @ (if 0 < WAIT_SECONDS cfg \<and> e < length mcList
                   then [Paused (WAIT_SECONDS cfg * 1000)] else [])"
  by (simp_all add: batch_wait_def)

lemma write_urls_fields:
  "rows (write_urls w st) = rows st"
  "validUrls (write_urls w st) = validUrls st"
  "trace (write_urls w st)
     = trace st @ [Written (urls_name (epoch w)) (join [nl] (validUrls st))]"
  by (simp_all add: write_urls_def)

lemma merged_append: "merged (tr @ xs) = foldl merge_event (merged tr) xs"
  by (simp add: merged_def)

lemma merged_quiet:
  "\<forall>e \<in> set xs. \<forall>rs. e \<noteq> WaveDone rs \<Longrightarrow> foldl merge_event st xs = st"
proof (induction xs arbitrary: st)
  case Nil
  show ?case by simp
next
  case (Cons x xs)
  then show ?case by (cases x) auto
qed

lemma accumulated_wave:
  "accumulated st \<Longrightarrow> accumulated (wave_step cfg st results)"
  by (simp add: accumulated_def wave_step_fields merged_append foldl_push_fields)

lemma accumulated_quiet:
  assumes "accumulated st" and "rows st' = rows st" and "validUrls st' = validUrls st"
      and "trace st' = trace st @ xs" and "\<forall>e \<in> set xs. \<forall>rs. e \<noteq> WaveDone rs"
  shows "accumulated st'"
  using assms by (simp add: accumulated_def merged_append merged_quiet)

lemma cumulative_quiet:
  assumes "checkpoints_cumulative w tr" and "\<forall>e \<in> set xs. \<not> is_written e"
  shows "checkpoints_cumulative w (tr @ xs)"
  unfolding checkpoints_cumulative_def
proof (intro allI impI)
  fix k name content
  assume k: "k < length (tr @ xs)" and e: "(tr @ xs) ! k = Written name content"
  show "name = csv_name (iso_time w (checkpoints (take k (tr @ xs)))) \<and>
        content = to_csv (rows (merged (take k (tr @ xs))))"
  proof (cases "k < length tr")
    case True
    with e have "tr ! k = Written name content" by (simp add: nth_append)
    with assms(1) True show ?thesis by (simp add: checkpoints_cumulative_def)
  next
    case False
    with k e have "xs ! (k - length tr) = Written name content" "k - length tr < length xs"
      by (simp_all add: nth_append)
    then have "Written name content \<in> set xs" by (metis nth_mem)
    with assms(2) show ?thesis by auto
  qed
qed

lemma cumulative_checkpoint:
  assumes "checkpoints_cumulative w tr"
  shows "checkpoints_cumulative w
           (tr @ [Written (csv_name (iso_time w (checkpoints tr))) (to_csv (rows (merged tr)))])"
  unfolding checkpoints_cumulative_def
proof (intro allI impI)
  fix k name content
  let ?x = "Written (csv_name (iso_time w (checkpoints tr))) (to_csv (rows (merged tr)))"
  assume k: "k < length (tr @ [?x])" and e: "(tr @ [?x]) ! k = Written name content"
  show "name = csv_name (iso_time w (checkpoints (take k (tr @ [?x])))) \<and>
        content = to_csv (rows (merged (take k (tr @ [?x]))))"
  proof (cases "k < length tr")
    case True
    with e have "tr ! k = Written name content" by (simp add: nth_append)
    with assms True show ?thesis by (simp add: checkpoints_cumulative_def)
  next
    case False
    with k have "k = length tr" by simp
    with e show ?thesis by simp
  qed
qed

lemma paced_quiet:
  assumes "paced cfg tr" and "\<forall>e \<in> set xs. \<forall>rs. e \<noteq> WaveDone rs"
  shows "paced cfg (tr @ xs)"
  unfolding paced_def
proof (intro allI impI)
  fix k rs
  assume k: "k < length (tr @ xs)" and e: "(tr @ xs) ! k = WaveDone rs"
  show "Suc k < length (tr @ xs) \<and> (tr @ xs) ! Suc k = Paused (max 50 (DELAY cfg))"
  proof (cases "k < length tr")
    case True
    with e have "tr ! k = WaveDone rs" by (simp add: nth_append)
    with assms(1) True have "Suc k < length tr \<and> tr ! Suc k = Paused (max 50 (DELAY cfg))"
      by (simp add: paced_def)
    then show ?thesis by (simp add: nth_append)
  next
    case False
    with k e have "xs ! (k - length tr) = WaveDone rs" "k - length tr < length xs"
      by (simp_all add: nth_append)
    then have "WaveDone rs \<in> set xs" by (metis nth_mem)
    with assms(2) show ?thesis by auto
  qed
qed

lemma paced_wave:
  assumes "paced cfg tr"
  shows "paced cfg (tr @ [WaveDone results, Paused (max 50 (DELAY cfg))])"
  unfolding paced_def
proof (intro allI impI)
  fix k rs
  let ?xs = "[WaveDone results, Paused (max 50 (DELAY cfg))]"
  assume k: "k < length (tr @ ?xs)" and e: "(tr @ ?xs) ! k = WaveDone rs"
  show "Suc k < length (tr @ ?xs) \<and> (tr @ ?xs) ! Suc k = Paused (max 50 (DELAY cfg))"
  proof (cases "k < length tr")
    case True
    with e have "tr ! k = WaveDone rs" by (simp add: nth_append)
    with assms True have "Suc k < length tr \<and> tr ! Suc k = Paused (max 50 (DELAY cfg))"
      by (simp add: paced_def)
    then show ?thesis by (simp add: nth_append)
  next
    case False
    with k have "k = length tr \<or> k = Suc (length tr)" by auto
    with e show ?thesis by (auto simp: nth_append)
  qed
qed

lemma those_map_Some:
  "those (map f xs) = Some ys \<Longrightarrow> list_all2 (\<lambda>x y. f x = Some y) xs ys"
proof (induction xs arbitrary: ys)
  case Nil
  then show ?case by simp
next
  case (Cons x xs)
  then show ?case by (auto split: option.splits)
qed

lemma returned_Some: "returned d = Some (a, ev) \<longleftrightarrow> d = (Returned a, ev)"
  by (cases d rule: returned.cases) auto

lemma slice_members:
  assumes "(j, mc) \<in> set (zip [i..<i + length (wave_slice cfg mcList e i)] (wave_slice cfg mcList e i))"
  shows "j < length mcList \<and> mc = mcList ! j"
proof -
  let ?s = "wave_slice cfg mcList e i"
  from assms obtain k where k: "k < length ?s" "[i..<i + length ?s] ! k = j" "?s ! k = mc"
    by (auto simp: in_set_zip)
  have len: "length ?s \<le> length mcList - i" by (simp add: wave_slice_def)
  from k have j: "j = i + k" by simp
  from k len have "i \<le> length mcList" "k < length mcList - i" by simp_all
  with k have "mc = mcList ! (i + k)" by (simp add: wave_slice_def)
  with j k len show ?thesis by simp
qed

lemma dispatched_results:
  assumes "those_returned (dispatch cfg w i (wave_slice cfg mcList e i)) = Some results"
      and "(out, ev) \<in> set results"
  shows "\<exists>j<length mcList. handleMC cfg (URL_href w) (task w j) (mcList ! j) = (Returned out, ev)"
proof -
  let ?s = "wave_slice cfg mcList e i"
  let ?z = "zip [i..<i + length ?s] ?s"
  let ?h = "\<lambda>(j, mc). handleMC cfg (URL_href w) (task w j) mc"
  from assms(1) have "those (map (returned \<circ> ?h) ?z) = Some results"
    by (simp add: those_returned_def dispatch_def)
  from those_map_Some [OF this]
  have "list_all2 (\<lambda>x y. (returned \<circ> ?h) x = Some y) ?z results" .
  then have l: "length ?z = length results"
      and a: "\<And>n. n < length results \<Longrightarrow> (returned \<circ> ?h) (?z ! n) = Some (results ! n)"
    by (simp_all add: list_all2_conv_all_nth)
  from assms(2) obtain n where n: "n < length results" "results ! n = (out, ev)"
    by (auto simp: in_set_conv_nth)
  define x where "x = ?z ! n"
  have "x \<in> set ?z" unfolding x_def by (rule nth_mem) (use n l in simp)
  moreover have "(returned \<circ> ?h) x = Some (out, ev)"
    using n a [OF n(1)] by (simp add: x_def)
  ultimately have x: "x \<in> set ?z" "(returned \<circ> ?h) x = Some (out, ev)" by simp_all
  obtain j mc where jm: "x = (j, mc)" by (cases x)
  with x(1) have "j < length mcList \<and> mc = mcList ! j" by (simp add: slice_members)
  moreover from x(2) jm have "handleMC cfg (URL_href w) (task w j) mc = (Returned out, ev)"
    by (simp add: returned_Some)
  ultimately show ?thesis by blast
qed

lemma extract_body_url: "extract_body URL nt lookup ev = (Inr c, ev') \<Longrightarrow> url c = lookup"
  by (auto simp: extract_body_def Let_def split: prod.splits sum.splits if_splits)

lemma handleMC_valid:
  assumes "handleMC cfg URL env mc = (Returned out, ev)" and "valid out"
  shows "passes env mc \<and> o_url out = Some (mcToSnapshotUrl mc) \<and>
         (\<forall>c. o_row out = Some c \<longrightarrow> url c = mcToSnapshotUrl mc)"
proof -
  let ?u = "mcToSnapshotUrl mc"
  obtain r ev1 where f: "fetchRetry (net env) ?u MAX_RETRIES ''snapshot'' [] = (r, ev1)"
    by (cases "fetchRetry (net env) ?u MAX_RETRIES ''snapshot'' []")
  show ?thesis
  proof (cases r)
    case (Inl e)
    with f assms show ?thesis by (auto simp: handleMC_lookup_failed invalid_def)
  next
    case (Inr page)
    show ?thesis
    proof (cases "verdict_rule page")
      case Invalid
      with f Inr assms show ?thesis by (auto simp: handleMC_invalid_page invalid_def)
    next
      case Valid
      with f Inr have p: "passes env mc" by (simp add: passes_def)
      show ?thesis
      proof (cases "MODE cfg = ''urls''")
        case True
        with f Inr Valid assms p show ?thesis by (auto simp: handleMC_urls)
      next
        case False
        from f Inr have f': "fetchRetry (net env) ?u MAX_RETRIES ''snapshot'' [] = (Inr page, ev1)"
          by simp
        obtain x ev2 where xo: "extractOne URL env ?u ev1 = (x, ev2)"
          by (cases "extractOne URL env ?u ev1")
        with assms(1) have h: "(case x of Killed \<Rightarrow> (Killed, ev2)
            | Returned (Inl err) \<Rightarrow> (Returned invalid, ev2)
            | Returned (Inr r) \<Rightarrow>
                (Returned \<lparr>valid = True, o_url = Some ?u, o_row = Some r\<rparr>, ev2))
            = (Returned out, ev)"
          by (simp add: handleMC_extracts [OF f' Valid False])
        show ?thesis
        proof (cases x)
          case Killed
          with h show ?thesis by simp
        next
          case (Returned y)
          show ?thesis
          proof (cases y)
            case (Inl err)
            with h Returned assms(2) show ?thesis by (auto simp: invalid_def)
          next
            case (Inr c)
            with xo Returned have "extract_body URL (net env) ?u ev1 = (Inr c, ev2)"
              by (auto simp: extractOne_def split: prod.splits if_splits)
            then have "url c = ?u" by (rule extract_body_url)
            with h Returned Inr p show ?thesis by auto
          qed
        qed
      qed
    qed
  qed
qed

lemma from_passing_wave:
  assumes "from_passing w mcList st"
      and "those_returned (dispatch cfg w i (wave_slice cfg mcList e i)) = Some results"
  shows "from_passing w mcList (wave_step cfg st results)"
proof -
  have r: "\<And>c. c \<in> set (concat (map out_rows (map fst results))) \<Longrightarrow>
      \<exists>j<length mcList. passes (task w j) (mcList ! j) \<and> url c = mcToSnapshotUrl (mcList ! j)"
  proof -
    fix c assume "c \<in> set (concat (map out_rows (map fst results)))"
    then obtain out ev where o: "(out, ev) \<in> set results" "c \<in> set (out_rows out)" by auto
    from o(2) have "valid out \<and> o_row out = Some c"
      by (cases "valid out"; cases "o_row out") (simp_all add: out_rows_def)
    then have v: "valid out" "o_row out = Some c" by simp_all
    from dispatched_results [OF assms(2) o(1)] obtain j
      where j: "j < length mcList"
        "handleMC cfg (URL_href w) (task w j) (mcList ! j) = (Returned out, ev)" by blast
    from handleMC_valid [OF j(2) v(1)] v(2) j(1)
    show "\<exists>j<length mcList. passes (task w j) (mcList ! j) \<and> url c = mcToSnapshotUrl (mcList ! j)"
      by blast
  qed
  have u: "\<And>u. u \<in> set (concat (map out_urls (map fst results))) \<Longrightarrow>
      \<exists>j<length mcList. passes (task w j) (mcList ! j) \<and> u = mcToSnapshotUrl (mcList ! j)"
  proof -
    fix u assume "u \<in> set (concat (map out_urls (map fst results)))"
    then obtain out ev where o: "(out, ev) \<in> set results" "u \<in> set (out_urls out)" by auto
    from o(2) have "valid out \<and> o_url out = Some u"
      by (cases "valid out"; cases "o_url out") (auto simp: out_urls_def split: if_splits)
    then have v: "valid out" "o_url out = Some u" by simp_all
    from dispatched_results [OF assms(2) o(1)] obtain j
      where j: "j < length mcList"
        "handleMC cfg (URL_href w) (task w j) (mcList ! j) = (Returned out, ev)" by blast
    from handleMC_valid [OF j(2) v(1)] v(2) j(1)
    show "\<exists>j<length mcList. passes (task w j) (mcList ! j) \<and> u = mcToSnapshotUrl (mcList ! j)"
      by auto
  qed
  show ?thesis
    unfolding from_passing_def wave_step_fields
  proof (intro conjI ballI)
    fix c assume "c \<in> set (rows st @ concat (map out_rows (map fst results)))"
    then have "c \<in> set (rows st) \<or> c \<in> set (concat (map out_rows (map fst results)))"
      by simp
    then show "\<exists>j<length mcList. passes (task w j) (mcList ! j) \<and>
        url c = mcToSnapshotUrl (mcList ! j)"
    proof
      assume "c \<in> set (rows st)"
      with assms(1) show ?thesis by (simp add: from_passing_def)
    next
      assume "c \<in> set (concat (map out_rows (map fst results)))"
      then show ?thesis by (rule r)
    qed
  next
    fix x assume "x \<in> set (validUrls st @ concat (map out_urls (map fst results)))"
    then have "x \<in> set (validUrls st) \<or> x \<in> set (concat (map out_urls (map fst results)))"
      by simp
    then show "\<exists>j<length mcList. passes (task w j) (mcList ! j) \<and>
        x = mcToSnapshotUrl (mcList ! j)"
    proof
      assume "x \<in> set (validUrls st)"
      with assms(1) show ?thesis by (simp add: from_passing_def)
    next
      assume "x \<in> set (concat (map out_urls (map fst results)))"
      then show ?thesis by (rule u)
    qed
  qed
qed

lemma run_inv_wave:
  assumes "run_inv cfg w mcList st"
      and "those_returned (dispatch cfg w i (wave_slice cfg mcList e i)) = Some results"
  shows "run_inv cfg w mcList (wave_step cfg st results)"
proof -
  have q: "\<forall>e \<in> set [WaveDone results, Paused (max 50 (DELAY cfg))]. \<not> is_written e" by simp
  from assms show ?thesis
    unfolding run_inv_def
    by (simp add: accumulated_wave from_passing_wave wave_step_fields(3) paced_wave
                  cumulative_quiet [OF _ q])
qed

lemma run_inv_batch_end:
  assumes "run_inv cfg w mcList st"
  shows "run_inv cfg w mcList (batch_wait cfg mcList e (checkpoint w st))"
proof -
  let ?st' = "batch_wait cfg mcList e (checkpoint w st)"
  let ?x = "Written (csv_name (iso_time w (checkpoints (trace st)))) (to_csv (rows st))"
  let ?p = "if 0 < WAIT_SECONDS cfg \<and> e < length mcList then [Paused (WAIT_SECONDS cfg * 1000)] else []"
  have tr: "trace ?st' = (trace st @ [?x]) @ ?p" "rows ?st' = rows st" "validUrls ?st' = validUrls st"
    by (simp_all add: batch_wait_fields checkpoint_fields)
  from assms have a: "accumulated st" "checkpoints_cumulative w (trace st)" "paced cfg (trace st)"
    "from_passing w mcList st" by (simp_all add: run_inv_def)
  have "accumulated ?st'"
    by (rule accumulated_quiet [OF a(1) tr(2,3), of "[?x] @ ?p"]) (simp_all add: tr)
  moreover have "checkpoints_cumulative w (trace ?st')"
  proof -
    from a(1) have "rows st = rows (merged (trace st))" by (simp add: accumulated_def)
    with cumulative_checkpoint [OF a(2)] have "checkpoints_cumulative w (trace st @ [?x])" by simp
    then show ?thesis unfolding tr(1) by (rule cumulative_quiet) simp
  qed
  moreover have "paced cfg (trace ?st')"
    unfolding tr(1) by (intro paced_quiet a(3)) simp_all
  moreover have "from_passing w mcList ?st'"
    using a(4) by (simp add: from_passing_def tr)
  ultimately show ?thesis by (simp add: run_inv_def)
qed

lemma waves_run_inv:
  assumes "waves cfg w mcList e i st = Some res" and "run_inv cfg w mcList st"
  shows "run_inv cfg w mcList (state_of res)"
proof -
  from waves_rule [OF assms(1), of "\<lambda>i st. run_inv cfg w mcList st", OF assms(2)]
  show ?thesis using run_inv_wave by blast
qed

lemma batches_run_inv:
  assumes "batches cfg w mcList start st = Some res" and "run_inv cfg w mcList st"
  shows "run_inv cfg w mcList (state_of res)"
proof -
  have "case res of
          Finished st' \<Rightarrow> \<exists>s. run_inv cfg w mcList st' \<and> \<not> s < length mcList
        | Crashed st' \<Rightarrow> run_inv cfg w mcList st'"
  proof (rule batches_rule [OF assms(1), of "\<lambda>s st. run_inv cfg w mcList st", OF assms(2)])
    fix start st st1
    assume "run_inv cfg w mcList st"
      "waves cfg w mcList (min (length mcList) (start + BATCH_SIZE cfg)) start st = Some (Finished st1)"
    from waves_run_inv [OF this(2,1)] have "run_inv cfg w mcList st1" by simp
    then show "run_inv cfg w mcList
        (batch_wait cfg mcList (min (length mcList) (start + BATCH_SIZE cfg)) (checkpoint w st1))"
      by (rule run_inv_batch_end)
  next
    fix start st st1
    assume "run_inv cfg w mcList st"
      "waves cfg w mcList (min (length mcList) (start + BATCH_SIZE cfg)) start st = Some (Crashed st1)"
    from waves_run_inv [OF this(2,1)] show "run_inv cfg w mcList st1" by simp
  qed
  then show ?thesis by (cases res) auto
qed

lemma run_inv_start: "run_inv cfg w mcList start_state"
  by (simp add: run_inv_def accumulated_def checkpoints_cumulative_def paced_def
                from_passing_def start_state_def merged_def)


section \<open>What a run leaves behind\<close>

lemma run_cases:
  assumes "run cfg w mcList = Some res"
  shows "batches cfg w mcList 0 start_state = Some res
       \<or> (\<exists>st. batches cfg w mcList 0 start_state = Some (Finished st) \<and>
             MODE cfg = ''urls'' \<and> res = Finished (write_urls w st))"
  using assms
  by (auto simp: run_def split: option.splits run_result.splits if_splits)

lemma run_inv_write_urls:
  assumes "run_inv cfg w mcList st"
  shows "accumulated (write_urls w st)" "paced cfg (trace (write_urls w st))"
    "from_passing w mcList (write_urls w st)"
proof -
  let ?x = "Written (urls_name (epoch w)) (join [nl] (validUrls st))"
  from assms have a: "accumulated st" "paced cfg (trace st)" "from_passing w mcList st"
    by (simp_all add: run_inv_def)
  show "accumulated (write_urls w st)"
    by (rule accumulated_quiet [OF a(1), of _ "[?x]"]) (simp_all add: write_urls_fields)
  show "paced cfg (trace (write_urls w st))"
    unfolding write_urls_fields by (intro paced_quiet a(2)) simp
  show "from_passing w mcList (write_urls w st)"
    using a(3) by (simp add: from_passing_def write_urls_fields)
qed

text \<open>
  Claim C6, amended. In the trace of every run that ends, each completed wave (its
  outcomes merged into the accumulator) is followed at once by a pause of
  \<open>max 50 (DELAY cfg)\<close> milliseconds: the configured delay when that is at least 50,
  and 300 when the variable is not set.
\<close>

theorem pause_after_every_wave:
  "(run cfg w mcList = Some res \<longrightarrow>
      (\<forall>k<length (trace (state_of res)). \<forall>rs. trace (state_of res) ! k = WaveDone rs \<longrightarrow>
         Suc k < length (trace (state_of res)) \<and>
         trace (state_of res) ! Suc k = Paused (max 50 (DELAY cfg)))) \<and>
   (50 \<le> DELAY cfg \<longrightarrow> max 50 (DELAY cfg) = DELAY cfg) \<and>
   max 50 (DELAY (config_of_env c None b wt m)) = 300"
proof (intro conjI impI)
  assume r: "run cfg w mcList = Some res"
  have "paced cfg (trace (state_of res))"
    using run_cases [OF r]
  proof (elim disjE conjE exE)
    assume "batches cfg w mcList 0 start_state = Some res"
    from batches_run_inv [OF this run_inv_start] show ?thesis by (simp add: run_inv_def)
  next
    fix s assume b: "batches cfg w mcList 0 start_state = Some (Finished s)"
      and e: "res = Finished (write_urls w s)"
    from batches_run_inv [OF b run_inv_start] have "run_inv cfg w mcList s" by simp
    from run_inv_write_urls(2) [OF this] e show ?thesis by simp
  qed
  then show "\<forall>k<length (trace (state_of res)). \<forall>rs. trace (state_of res) ! k = WaveDone rs \<longrightarrow>
         Suc k < length (trace (state_of res)) \<and>
         trace (state_of res) ! Suc k = Paused (max 50 (DELAY cfg))"
    by (simp add: paced_def)
next
  assume "50 \<le> DELAY cfg"
  then show "max 50 (DELAY cfg) = DELAY cfg" by simp
next
  show "max 50 (DELAY (config_of_env c None b wt m)) = 300"
    by (simp add: config_of_env_def env_or_def)
qed

lemma merged_rows: "rows (merged tr) = concat (map wave_rows tr)"
proof (induction tr rule: rev_induct)
  case Nil
  show ?case by (simp add: merged_def start_state_def)
next
  case (snoc e tr)
  then show ?case by (cases e) (simp_all add: merged_append foldl_push_fields)
qed

lemma merged_urls: "validUrls (merged tr) = concat (map wave_urls tr)"
proof (induction tr rule: rev_induct)
  case Nil
  show ?case by (simp add: merged_def start_state_def)
next
  case (snoc e tr)
  then show ?case by (cases e) (simp_all add: merged_append foldl_push_fields)
qed

lemma waves_prefix:
  assumes "waves cfg w mcList e i st = Some res"
  shows "prefix (rows st) (rows (state_of res)) \<and> prefix (validUrls st) (validUrls (state_of res))"
proof -
  let ?P = "\<lambda>(i::nat) (s::run_state). prefix (rows st) (rows s) \<and> prefix (validUrls st) (validUrls s)"
  have "\<exists>i'. ?P i' (state_of res) \<and> (\<forall>st'. res = Finished st' \<longrightarrow> \<not> i' < e) \<and>
              (\<forall>st'. res = Crashed st' \<longrightarrow> i' < e \<and>
                 those_returned (dispatch cfg w i' (wave_slice cfg mcList e i')) = None)"
  proof (rule waves_rule [OF assms, of ?P])
    show "?P i st" by simp
  next
    fix i s results
    assume "?P i s"
    then show "?P (i + length (wave_slice cfg mcList e i)) (wave_step cfg s results)"
      by (auto simp: wave_step_fields intro: prefix_order.trans)
  qed
  then show ?thesis by blast
qed

lemma batches_prefix:
  assumes "batches cfg w mcList start st = Some res"
  shows "prefix (rows st) (rows (state_of res)) \<and> prefix (validUrls st) (validUrls (state_of res))"
proof -
  let ?Q = "\<lambda>(i::nat) (s::run_state). prefix (rows st) (rows s) \<and> prefix (validUrls st) (validUrls s)"
  have "case res of
          Finished st' \<Rightarrow> \<exists>s. ?Q s st' \<and> \<not> s < length mcList
        | Crashed st' \<Rightarrow> ?Q 0 st'"
  proof (rule batches_rule [OF assms, of ?Q "?Q 0"])
    show "?Q start st" by simp
  next
    fix start s st1
    assume q: "?Q start s"
      and "waves cfg w mcList (min (length mcList) (start + BATCH_SIZE cfg)) start s = Some (Finished st1)"
    from waves_prefix [OF this(2)] q
    show "?Q (start + BATCH_SIZE cfg)
        (batch_wait cfg mcList (min (length mcList) (start + BATCH_SIZE cfg)) (checkpoint w st1))"
      by (auto simp: batch_wait_fields checkpoint_fields intro: prefix_order.trans)
  next
    fix start s st1
    assume q: "?Q start s"
      and "waves cfg w mcList (min (length mcList) (start + BATCH_SIZE cfg)) start s = Some (Crashed st1)"
    from waves_prefix [OF this(2)] q show "?Q 0 st1"
      by (auto intro: prefix_order.trans)
  qed
  then show ?thesis by (cases res) auto
qed

text \<open>
  Claim C8. Merging an outcome appends its record and its URL to the two sequences,
  and appends nothing unless the outcome is valid; the wave iteration and the batch iteration, when they
  return, leave the sequences they started from as prefixes of the ones they end with;
  at the end of a run the two sequences are the concatenation, in order, of what the
  waves of its trace appended, nothing removed and nothing merged, and every record
  and URL belongs to an identifier of the list whose lookup page was fetched and
  judged valid.
\<close>

theorem accumulator_append_only:
  "rows (push_result st r) = rows st @ out_rows r \<and>
   validUrls (push_result st r) = validUrls st @ out_urls r \<and>
   (out_rows r \<noteq> [] \<or> out_urls r \<noteq> [] \<longrightarrow> valid r) \<and>
   (waves cfg w mcList e i st = Some res \<longrightarrow>
      prefix (rows st) (rows (state_of res)) \<and> prefix (validUrls st) (validUrls (state_of res))) \<and>
   (batches cfg w mcList i st = Some res \<longrightarrow>
      prefix (rows st) (rows (state_of res)) \<and> prefix (validUrls st) (validUrls (state_of res))) \<and>
   (run cfg w mcList = Some res \<longrightarrow>
      rows (state_of res) = concat (map wave_rows (trace (state_of res))) \<and>
      validUrls (state_of res) = concat (map wave_urls (trace (state_of res))) \<and>
      (\<forall>c \<in> set (rows (state_of res)). \<exists>j<length mcList.
          passes (task w j) (mcList ! j) \<and> url c = mcToSnapshotUrl (mcList ! j)) \<and>
      (\<forall>u \<in> set (validUrls (state_of res)). \<exists>j<length mcList.
          passes (task w j) (mcList ! j) \<and> u = mcToSnapshotUrl (mcList ! j)))"
proof (intro conjI impI)
  show "rows (push_result st r) = rows st @ out_rows r" by (rule push_result_fields)
  show "validUrls (push_result st r) = validUrls st @ out_urls r" by (rule push_result_fields)
  assume "out_rows r \<noteq> [] \<or> out_urls r \<noteq> []"
  then show "valid r" by (auto simp: out_rows_def out_urls_def split: if_splits)
next
  assume "waves cfg w mcList e i st = Some res"
  from waves_prefix [OF this]
  show "prefix (rows st) (rows (state_of res))" "prefix (validUrls st) (validUrls (state_of res))"
    by simp_all
next
  assume "batches cfg w mcList i st = Some res"
  from batches_prefix [OF this]
  show "prefix (rows st) (rows (state_of res))" "prefix (validUrls st) (validUrls (state_of res))"
    by simp_all
next
  assume r: "run cfg w mcList = Some res"
  have a: "accumulated (state_of res) \<and> from_passing w mcList (state_of res)"
    using run_cases [OF r]
  proof (elim disjE conjE exE)
    assume "batches cfg w mcList 0 start_state = Some res"
    from batches_run_inv [OF this run_inv_start] show ?thesis by (simp add: run_inv_def)
  next
    fix s assume b: "batches cfg w mcList 0 start_state = Some (Finished s)"
      and e: "res = Finished (write_urls w s)"
    from batches_run_inv [OF b run_inv_start] have "run_inv cfg w mcList s" by simp
    from run_inv_write_urls(1,3) [OF this] e show ?thesis by simp
  qed
  then show "rows (state_of res) = concat (map wave_rows (trace (state_of res)))"
    "validUrls (state_of res) = concat (map wave_urls (trace (state_of res)))"
    by (simp_all add: accumulated_def merged_rows merged_urls)
  from a show "\<forall>c \<in> set (rows (state_of res)). \<exists>j<length mcList.
          passes (task w j) (mcList ! j) \<and> url c = mcToSnapshotUrl (mcList ! j)"
    "\<forall>u \<in> set (validUrls (state_of res)). \<exists>j<length mcList.
          passes (task w j) (mcList ! j) \<and> u = mcToSnapshotUrl (mcList ! j)"
    by (simp_all add: from_passing_def)
qed

lemma checkpoints_append: "checkpoints (tr @ xs) = checkpoints tr + checkpoints xs"
  by (simp add: checkpoints_def)

lemma waves_checkpoints:
  assumes "waves cfg w mcList e i st = Some res"
  shows "checkpoints (trace (state_of res)) = checkpoints (trace st)"
proof -
  let ?P = "\<lambda>(i::nat) (s::run_state). checkpoints (trace s) = checkpoints (trace st)"
  have "\<exists>i'. ?P i' (state_of res) \<and> (\<forall>st'. res = Finished st' \<longrightarrow> \<not> i' < e) \<and>
              (\<forall>st'. res = Crashed st' \<longrightarrow> i' < e \<and>
                 those_returned (dispatch cfg w i' (wave_slice cfg mcList e i')) = None)"
  proof (rule waves_rule [OF assms, of ?P])
    show "?P i st" by simp
  next
    fix i s results
    assume "?P i s"
    then show "?P (i + length (wave_slice cfg mcList e i)) (wave_step cfg s results)"
      by (simp add: wave_step_fields checkpoints_append) (simp add: checkpoints_def)
  qed
  then show ?thesis by blast
qed

lemma batch_end_checkpoints:
  "checkpoints (trace (batch_wait cfg mcList e (checkpoint w st))) = Suc (checkpoints (trace st))"
  by (simp add: batch_wait_fields checkpoint_fields checkpoints_append) (simp add: checkpoints_def)

lemma ceiling_batches:
  assumes "0 < (B::nat)" and "\<not> b * B < len" and "b * B < len + B"
  shows "b = (len + B - 1) div B"
proof -
  have "B * b \<le> len + B - 1" using assms by (simp add: mult.commute)
  moreover have "len + B - 1 < B * Suc b" using assms by (simp add: mult.commute)
  ultimately show ?thesis by (simp add: div_nat_eqI)
qed

lemma batches_checkpoints:
  assumes "batches cfg w mcList 0 start_state = Some (Finished st)" and "0 < BATCH_SIZE cfg"
  shows "checkpoints (trace st) = (length mcList + BATCH_SIZE cfg - 1) div BATCH_SIZE cfg"
proof -
  let ?B = "BATCH_SIZE cfg"
  let ?Q = "\<lambda>start (s::run_state).
      (\<exists>b. start = b * ?B \<and> checkpoints (trace s) = b) \<and> start < length mcList + ?B"
  have "case Finished st of
          Finished st' \<Rightarrow> \<exists>s. ?Q s st' \<and> \<not> s < length mcList
        | Crashed st' \<Rightarrow> True"
  proof (rule batches_rule [OF assms(1), of ?Q "\<lambda>s. True"])
    show "?Q 0 start_state" using assms(2) by (simp add: start_state_def checkpoints_def)
  next
    fix start s st1
    assume q: "?Q start s" and lt: "start < length mcList"
      and wv: "waves cfg w mcList (min (length mcList) (start + ?B)) start s = Some (Finished st1)"
    from q obtain b where b: "start = b * ?B" "checkpoints (trace s) = b" by blast
    from waves_checkpoints [OF wv] b have "checkpoints (trace st1) = b" by simp
    then have "checkpoints (trace (batch_wait cfg mcList (min (length mcList) (start + ?B))
                 (checkpoint w st1))) = Suc b"
      by (simp add: batch_end_checkpoints)
    moreover have "start + ?B = Suc b * ?B" using b by simp
    ultimately have "\<exists>b'. start + ?B = b' * ?B \<and>
        checkpoints (trace (batch_wait cfg mcList (min (length mcList) (start + ?B))
                 (checkpoint w st1))) = b'"
      by (intro exI [of _ "Suc b"] conjI)
    moreover have "start + ?B < length mcList + ?B" using lt by simp
    ultimately show "?Q (start + ?B)
        (batch_wait cfg mcList (min (length mcList) (start + ?B)) (checkpoint w st1))"
      by (intro conjI)
  next
    show "True" ..
  qed
  then obtain s b where "s = b * ?B" "checkpoints (trace st) = b" "s < length mcList + ?B"
    "\<not> s < length mcList" by auto
  with ceiling_batches [OF assms(2), of b "length mcList"] show ?thesis by simp
qed

lemma replace_all_Cls:
  "replace_all False (Cls P) rep s = concat (map (\<lambda>x. if P x then rep else [x]) s)"
proof (induction s)
  case Nil
  show ?case by (subst replace_all.simps) (simp add: match_here_def)
next
  case (Cons x xs)
  show ?case by (subst replace_all.simps) (simp add: match_here_def Cons.IH)
qed

lemma concat_singletons: "concat (map (\<lambda>x. [f x]) s) = map f s"
  by (induction s) auto

lemma csv_name_explicit:
  "csv_name stamp =
     ''fmcsa_batch_'' @ map (\<lambda>c. if c = CHR '':'' \<or> c = CHR ''.'' then CHR ''-'' else c) stamp
       @ ''.csv''"
proof -
  have "concat (map (\<lambda>x. if x = CHR '':'' \<or> x = CHR ''.'' then ''-'' else [x]) stamp)
      = concat (map (\<lambda>x. [if x = CHR '':'' \<or> x = CHR ''.'' then CHR ''-'' else x]) stamp)"
    by (rule arg_cong [where f = concat]) (rule map_cong, simp_all)
  then show ?thesis
    by (simp add: csv_name_def replace_all_Cls concat_singletons)
qed

lemma csv_name_not_urls: "csv_name stamp \<noteq> urls_name t"
  by (simp add: csv_name_def urls_name_def)

lemma to_csv_explicit:
  "to_csv rs =
     join [nl] (''email,mcNumber,phone,url'' #
       map (\<lambda>r. csv_field (email r) @ '','' @ csv_field (mcNumber r) @ '','' @
                 csv_field (phone r) @ '','' @ csv_field (url r)) rs)"
  by (simp add: to_csv_def headers_def field_def)

lemma csv_field_explicit:
  "csv_field v = dq # concat (map (\<lambda>x. if x = dq then [dq, dq] else [x]) v) @ [dq]"
  by (simp add: csv_field_def replace_all_Lit)

subsection \<open>The accumulator, identifier by identifier\<close>

lemma completed_append: "completed (tr @ xs) = completed tr + completed xs"
  by (simp add: completed_def)

lemma list_all2_map_eq: "list_all2 (\<lambda>x y. f x = g y) xs ys \<Longrightarrow> map f xs = map g ys"
  by (induction rule: list_all2_induct) simp_all

lemma dispatch_contributions:
  assumes "those_returned (dispatch cfg w i slice) = Some results"
  shows "length results = length slice"
    and "map out_rows (map fst results) = map (task_rows cfg w) (zip [i..<i + length slice] slice)"
    and "map out_urls (map fst results) = map (task_urls cfg w) (zip [i..<i + length slice] slice)"
proof -
  let ?z = "zip [i..<i + length slice] slice"
  let ?h = "\<lambda>(j, mc). handleMC cfg (URL_href w) (task w j) mc"
  from assms have "those (map (returned \<circ> ?h) ?z) = Some results"
    by (simp add: those_returned_def dispatch_def)
  from those_map_Some [OF this]
  have a: "list_all2 (\<lambda>x y. (returned \<circ> ?h) x = Some y) ?z results" .
  then have "length ?z = length results" by (rule list_all2_lengthD)
  then show "length results = length slice" by simp
  have r: "\<And>x y. (returned \<circ> ?h) x = Some y \<Longrightarrow>
      task_rows cfg w x = out_rows (fst y) \<and> task_urls cfg w x = out_urls (fst y)"
  proof -
    fix x :: "nat \<times> string" and y :: "outcome \<times> event list"
    assume s: "(returned \<circ> ?h) x = Some y"
    obtain j mc where x: "x = (j, mc)" by (cases x)
    obtain out ev where y: "y = (out, ev)" by (cases y)
    from s x y have "handleMC cfg (URL_href w) (task w j) mc = (Returned out, ev)"
      by (simp add: returned_Some)
    with x y show "task_rows cfg w x = out_rows (fst y) \<and> task_urls cfg w x = out_urls (fst y)"
      by (simp add: task_rows_def task_urls_def)
  qed
  from a have "list_all2 (\<lambda>x y. task_rows cfg w x = (out_rows \<circ> fst) y) ?z results"
    by (rule list_all2_mono) (simp add: r)
  from list_all2_map_eq [OF this]
  show "map out_rows (map fst results) = map (task_rows cfg w) ?z" by simp
  from a have "list_all2 (\<lambda>x y. task_urls cfg w x = (out_urls \<circ> fst) y) ?z results"
    by (rule list_all2_mono) (simp add: r)
  from list_all2_map_eq [OF this]
  show "map out_urls (map fst results) = map (task_urls cfg w) ?z" by simp
qed

lemma zip_positions:
  assumes "i + n \<le> length mcList"
  shows "zip [0..<i + n] (take (i + n) mcList)
      = zip [0..<i] (take i mcList) @ zip [i..<i + n] (take n (drop i mcList))"
proof -
  have u: "[0..<i + n] = [0..<i] @ [i..<i + n]"
    by (rule upt_add_eq_append) simp
  have t: "take (i + n) mcList = take i mcList @ take n (drop i mcList)"
    by (rule take_add)
  have l: "length [0..<i] = length (take i mcList)" using assms by simp
  show ?thesis unfolding u t by (rule zip_append [OF l])
qed

lemma all_rows_step:
  assumes "i + n \<le> length mcList"
  shows "all_rows cfg w mcList (i + n)
     = all_rows cfg w mcList i @
       concat (map (task_rows cfg w) (zip [i..<i + n] (take n (drop i mcList))))"
  unfolding all_rows_def zip_positions [OF assms] by (simp only: map_append concat_append)

lemma all_urls_step:
  assumes "i + n \<le> length mcList"
  shows "all_urls cfg w mcList (i + n)
     = all_urls cfg w mcList i @
       concat (map (task_urls cfg w) (zip [i..<i + n] (take n (drop i mcList))))"
  unfolding all_urls_def zip_positions [OF assms] by (simp only: map_append concat_append)

lemma placed_quiet:
  assumes "checkpoints_placed cfg w mcList tr" and "\<forall>e \<in> set xs. \<not> is_written e"
  shows "checkpoints_placed cfg w mcList (tr @ xs)"
  unfolding checkpoints_placed_def
proof (intro allI impI)
  fix p name content
  assume p: "p < length (tr @ xs)" and e: "(tr @ xs) ! p = Written name content"
  show "completed (take p (tr @ xs))
          = min (length mcList) (Suc (checkpoints (take p (tr @ xs))) * BATCH_SIZE cfg) \<and>
        content = to_csv (all_rows cfg w mcList (completed (take p (tr @ xs))))"
  proof (cases "p < length tr")
    case True
    with e have "tr ! p = Written name content" by (simp add: nth_append)
    with assms(1) True
    have "completed (take p tr)
          = min (length mcList) (Suc (checkpoints (take p tr)) * BATCH_SIZE cfg) \<and>
        content = to_csv (all_rows cfg w mcList (completed (take p tr)))"
      unfolding checkpoints_placed_def by blast
    with True show ?thesis by simp
  next
    case False
    with p e have "xs ! (p - length tr) = Written name content" "p - length tr < length xs"
      by (simp_all add: nth_append)
    then have "Written name content \<in> set xs" by (metis nth_mem)
    with assms(2) show ?thesis by auto
  qed
qed

lemma placed_checkpoint:
  assumes "checkpoints_placed cfg w mcList tr"
      and "completed tr = min (length mcList) (Suc (checkpoints tr) * BATCH_SIZE cfg)"
  shows "checkpoints_placed cfg w mcList
           (tr @ [Written name (to_csv (all_rows cfg w mcList (completed tr)))])"
  unfolding checkpoints_placed_def
proof (intro allI impI)
  fix p nm content
  let ?x = "Written name (to_csv (all_rows cfg w mcList (completed tr)))"
  assume p: "p < length (tr @ [?x])" and e: "(tr @ [?x]) ! p = Written nm content"
  show "completed (take p (tr @ [?x]))
          = min (length mcList) (Suc (checkpoints (take p (tr @ [?x]))) * BATCH_SIZE cfg) \<and>
        content = to_csv (all_rows cfg w mcList (completed (take p (tr @ [?x]))))"
  proof (cases "p < length tr")
    case True
    with e have "tr ! p = Written nm content" by (simp add: nth_append)
    with assms(1) True
    have "completed (take p tr)
          = min (length mcList) (Suc (checkpoints (take p tr)) * BATCH_SIZE cfg) \<and>
        content = to_csv (all_rows cfg w mcList (completed (take p tr)))"
      unfolding checkpoints_placed_def by blast
    with True show ?thesis by simp
  next
    case False
    with p have "p = length tr" by simp
    with e assms(2) show ?thesis by simp
  qed
qed

lemma in_step_wave:
  assumes "in_step cfg w mcList st" and "completed (trace st) = i" and "i < e"
      and "e \<le> length mcList"
      and "those_returned (dispatch cfg w i (wave_slice cfg mcList e i)) = Some results"
  shows "in_step cfg w mcList (wave_step cfg st results)"
    and "completed (trace (wave_step cfg st results)) = i + length (wave_slice cfg mcList e i)"
    and "i + length (wave_slice cfg mcList e i) \<le> e"
proof -
  let ?s = "wave_slice cfg mcList e i"
  let ?st = "wave_step cfg st results"
  note d = dispatch_contributions [OF assms(5)]
  have n: "length ?s = min (e - i) (CONCURRENCY cfg)"
    by (rule wave_slice_length [OF assms(3,4)])
  then show le: "i + length ?s \<le> e" using assms(3) by simp
  then have le': "i + length ?s \<le> length mcList" using assms(4) by simp
  have s: "?s = take (length ?s) (drop i mcList)" by (simp add: wave_slice_def min_def)
  show c: "completed (trace ?st) = i + length ?s"
    using assms(2) d(1) by (simp add: wave_step_fields completed_append completed_def)
  have "rows ?st = rows st @ concat (map out_rows (map fst results))"
    by (rule wave_step_fields(1))
  also have "\<dots> = all_rows cfg w mcList i @
      concat (map (task_rows cfg w) (zip [i..<i + length ?s] ?s))"
    unfolding d(2) using assms(1,2) by (simp add: in_step_def)
  also have "\<dots> = all_rows cfg w mcList (i + length ?s)"
    using all_rows_step [OF le', of cfg w] s by simp
  finally have r: "rows ?st = all_rows cfg w mcList (i + length ?s)" .
  have "validUrls ?st = validUrls st @ concat (map out_urls (map fst results))"
    by (rule wave_step_fields(2))
  also have "\<dots> = all_urls cfg w mcList i @
      concat (map (task_urls cfg w) (zip [i..<i + length ?s] ?s))"
    unfolding d(3) using assms(1,2) by (simp add: in_step_def)
  also have "\<dots> = all_urls cfg w mcList (i + length ?s)"
    using all_urls_step [OF le', of cfg w] s by simp
  finally have u: "validUrls ?st = all_urls cfg w mcList (i + length ?s)" .
  have q: "\<forall>e \<in> set [WaveDone results, Paused (max 50 (DELAY cfg))]. \<not> is_written e" by simp
  from assms(1) have "checkpoints_placed cfg w mcList (trace st)" by (simp add: in_step_def)
  then have "checkpoints_placed cfg w mcList (trace ?st)"
    unfolding wave_step_fields(3) by (rule placed_quiet) simp
  with r u c le' show "in_step cfg w mcList ?st" by (simp add: in_step_def)
qed

lemma waves_in_step:
  assumes "waves cfg w mcList e i st = Some res" and "in_step cfg w mcList st"
      and "completed (trace st) = i" and "i \<le> e" and "e \<le> length mcList"
  shows "in_step cfg w mcList (state_of res) \<and>
         checkpoints (trace (state_of res)) = checkpoints (trace st) \<and>
         completed (trace (state_of res)) \<le> e \<and>
         i \<le> completed (trace (state_of res)) \<and>
         (\<forall>st'. res = Finished st' \<longrightarrow> completed (trace st') = e)"
proof -
  let ?P = "\<lambda>j (s::run_state). in_step cfg w mcList s \<and> completed (trace s) = j \<and> j \<le> e \<and> i \<le> j"
  have "\<exists>i'. ?P i' (state_of res) \<and> (\<forall>st'. res = Finished st' \<longrightarrow> \<not> i' < e) \<and>
              (\<forall>st'. res = Crashed st' \<longrightarrow> i' < e \<and>
                 those_returned (dispatch cfg w i' (wave_slice cfg mcList e i')) = None)"
  proof (rule waves_rule [OF assms(1), of ?P])
    show "?P i st" using assms by simp
  next
    fix j s results
    assume p: "?P j s" and lt: "j < e"
      and d: "those_returned (dispatch cfg w j (wave_slice cfg mcList e j)) = Some results"
    from p have a: "in_step cfg w mcList s" "completed (trace s) = j" "i \<le> j" by simp_all
    from in_step_wave [OF a(1,2) lt assms(5) d] a(3)
    show "?P (j + length (wave_slice cfg mcList e j)) (wave_step cfg s results)" by simp
  qed
  then obtain i' where i': "?P i' (state_of res)" "\<forall>st'. res = Finished st' \<longrightarrow> \<not> i' < e"
    by blast
  from i' waves_checkpoints [OF assms(1)] show ?thesis by auto
qed

lemma in_step_batch_end:
  assumes "in_step cfg w mcList st"
      and "completed (trace st) = min (length mcList) (Suc (checkpoints (trace st)) * BATCH_SIZE cfg)"
  shows "in_step cfg w mcList (batch_wait cfg mcList e (checkpoint w st))"
    and "completed (trace (batch_wait cfg mcList e (checkpoint w st))) = completed (trace st)"
proof -
  let ?st' = "batch_wait cfg mcList e (checkpoint w st)"
  let ?x = "Written (csv_name (iso_time w (checkpoints (trace st)))) (to_csv (rows st))"
  let ?p = "if 0 < WAIT_SECONDS cfg \<and> e < length mcList then [Paused (WAIT_SECONDS cfg * 1000)] else []"
  have tr: "trace ?st' = (trace st @ [?x]) @ ?p" "rows ?st' = rows st" "validUrls ?st' = validUrls st"
    by (simp_all add: batch_wait_fields checkpoint_fields)
  show c: "completed (trace ?st') = completed (trace st)"
    by (simp add: tr completed_append) (simp add: completed_def)
  from assms(1) have a: "rows st = all_rows cfg w mcList (completed (trace st))"
    "checkpoints_placed cfg w mcList (trace st)" by (simp_all add: in_step_def)
  from placed_checkpoint [OF a(2) assms(2)] a(1)
  have "checkpoints_placed cfg w mcList (trace st @ [?x])" by simp
  then have "checkpoints_placed cfg w mcList (trace ?st')"
    unfolding tr(1) by (rule placed_quiet) simp
  with assms(1) c tr(2,3) show "in_step cfg w mcList ?st'" by (simp add: in_step_def)
qed

lemma in_step_start: "in_step cfg w mcList start_state"
  by (simp add: in_step_def start_state_def completed_def all_rows_def all_urls_def
        checkpoints_placed_def)

lemma batches_in_step:
  assumes "batches cfg w mcList 0 start_state = Some res"
  shows "in_step cfg w mcList (state_of res) \<and>
         (\<forall>st. res = Finished st \<longrightarrow> completed (trace st) = length mcList)"
proof -
  let ?B = "BATCH_SIZE cfg"
  let ?Q = "\<lambda>start (s::run_state). in_step cfg w mcList s \<and>
      completed (trace s) = min start (length mcList) \<and> start = checkpoints (trace s) * ?B"
  have "case res of
          Finished st' \<Rightarrow> \<exists>s. ?Q s st' \<and> \<not> s < length mcList
        | Crashed st' \<Rightarrow> in_step cfg w mcList st'"
  proof (rule batches_rule [OF assms, of ?Q "in_step cfg w mcList"])
    show "?Q 0 start_state"
      by (simp add: in_step_start) (simp add: start_state_def completed_def checkpoints_def)
  next
    fix start s st1
    let ?e = "min (length mcList) (start + ?B)"
    assume q: "?Q start s" and lt: "start < length mcList"
      and wv: "waves cfg w mcList ?e start s = Some (Finished st1)"
    from q lt have a: "in_step cfg w mcList s" "completed (trace s) = start"
      "start = checkpoints (trace s) * ?B" by (simp_all add: min_def)
    from waves_in_step [OF wv a(1,2)] lt
    have b: "in_step cfg w mcList st1" "checkpoints (trace st1) = checkpoints (trace s)"
      "completed (trace st1) = ?e" by simp_all
    from b(2,3) a(3)
    have c: "completed (trace st1) = min (length mcList) (Suc (checkpoints (trace st1)) * ?B)"
      by (simp add: add.commute)
    from in_step_batch_end [OF b(1) c, of ?e] b(3) a(3) b(2)
    show "?Q (start + ?B) (batch_wait cfg mcList ?e (checkpoint w st1))"
      by (simp add: batch_end_checkpoints min.commute)
  next
    fix start s st1
    let ?e = "min (length mcList) (start + ?B)"
    assume q: "?Q start s" and lt: "start < length mcList"
      and wv: "waves cfg w mcList ?e start s = Some (Crashed st1)"
    from q lt have a: "in_step cfg w mcList s" "completed (trace s) = start"
      by (simp_all add: min_def)
    from waves_in_step [OF wv a(1,2)] lt
    show "in_step cfg w mcList st1" by simp
  qed
  then show ?thesis by (cases res) (auto simp: min_def)
qed





lemma run_in_step:
  assumes "run cfg w mcList = Some res"
  shows "completed (trace (state_of res)) \<le> length mcList"
    and "rows (state_of res) = all_rows cfg w mcList (completed (trace (state_of res)))"
    and "validUrls (state_of res) = all_urls cfg w mcList (completed (trace (state_of res)))"
    and "\<And>st. res = Finished st \<Longrightarrow> completed (trace st) = length mcList"
    and "\<And>p name content. p < length (trace (state_of res)) \<Longrightarrow>
           trace (state_of res) ! p = Written name content \<Longrightarrow> name \<noteq> urls_name (epoch w) \<Longrightarrow>
           completed (take p (trace (state_of res)))
             = min (length mcList) (Suc (checkpoints (take p (trace (state_of res)))) * BATCH_SIZE cfg) \<and>
           content = to_csv (all_rows cfg w mcList (completed (take p (trace (state_of res)))))"
proof -
  have "\<exists>s. in_step cfg w mcList s \<and> rows (state_of res) = rows s \<and>
          validUrls (state_of res) = validUrls s \<and>
          (trace (state_of res) = trace s \<or>
           trace (state_of res) = trace s @ [Written (urls_name (epoch w)) (join [nl] (validUrls s))]) \<and>
          (\<forall>st. res = Finished st \<longrightarrow> completed (trace s) = length mcList)"
    using run_cases [OF assms]
  proof (elim disjE conjE exE)
    assume b: "batches cfg w mcList 0 start_state = Some res"
    from batches_in_step [OF b] show ?thesis by (cases res) auto
  next
    fix s assume b: "batches cfg w mcList 0 start_state = Some (Finished s)"
      and f: "res = Finished (write_urls w s)"
    from batches_in_step [OF b] f show ?thesis by (auto simp: write_urls_fields)
  qed
  then obtain s where s: "in_step cfg w mcList s" "rows (state_of res) = rows s"
      "validUrls (state_of res) = validUrls s"
      "trace (state_of res) = trace s \<or>
         trace (state_of res) = trace s @ [Written (urls_name (epoch w)) (join [nl] (validUrls s))]"
      "\<forall>st. res = Finished st \<longrightarrow> completed (trace s) = length mcList"
    by blast
  from s(4) have c: "completed (trace (state_of res)) = completed (trace s)"
    by (auto simp: completed_append) (simp add: completed_def)
  from s(1) c show "completed (trace (state_of res)) \<le> length mcList" by (simp add: in_step_def)
  from s(1,2) c show "rows (state_of res) = all_rows cfg w mcList (completed (trace (state_of res)))"
    by (simp add: in_step_def)
  from s(1,3) c
  show "validUrls (state_of res) = all_urls cfg w mcList (completed (trace (state_of res)))"
    by (simp add: in_step_def)
  show "\<And>st. res = Finished st \<Longrightarrow> completed (trace st) = length mcList"
    using s(5) c by auto
  fix p name content
  let ?tr = "trace (state_of res)"
  assume p: "p < length ?tr" and e: "?tr ! p = Written name content"
    and n: "name \<noteq> urls_name (epoch w)"
  from s(1) have pl: "checkpoints_placed cfg w mcList (trace s)" by (simp add: in_step_def)
  have "p < length (trace s) \<and> trace s ! p = Written name content \<and> take p ?tr = take p (trace s)"
    using s(4)
  proof
    assume "?tr = trace s"
    with p e show ?thesis by simp
  next
    assume t: "?tr = trace s @ [Written (urls_name (epoch w)) (join [nl] (validUrls s))]"
    show ?thesis
    proof (cases "p < length (trace s)")
      case True
      with e t show ?thesis by (simp add: nth_append)
    next
      case False
      with p t have "p = length (trace s)" by simp
      with e t n show ?thesis by simp
    qed
  qed
  with pl show "completed (take p ?tr)
             = min (length mcList) (Suc (checkpoints (take p ?tr)) * BATCH_SIZE cfg) \<and>
           content = to_csv (all_rows cfg w mcList (completed (take p ?tr)))"
    unfolding checkpoints_placed_def by metis
qed






subsection \<open>The checkpoint text\<close>

lemma last_written:
  "checkpoints tr = Suc n \<Longrightarrow>
     \<exists>p<length tr. is_written (tr ! p) \<and> checkpoints (take p tr) = n"
proof (induction tr rule: rev_induct)
  case Nil
  then show ?case by (simp add: checkpoints_def)
next
  case (snoc x xs)
  show ?case
  proof (cases "is_written x")
    case True
    with snoc.prems have "checkpoints xs = n" by (simp add: checkpoints_def)
    with True show ?thesis by (intro exI [of _ "length xs"]) simp
  next
    case False
    with snoc.prems have "checkpoints xs = Suc n" by (simp add: checkpoints_def)
    from snoc.IH [OF this] obtain p
      where p: "p < length xs" "is_written (xs ! p)" "checkpoints (take p xs) = n" by blast
    then show ?thesis by (intro exI [of _ p]) (simp add: nth_append)
  qed
qed

lemma is_written_cases: "is_written e \<Longrightarrow> \<exists>name content. e = Written name content"
  by (cases e) simp_all

lemma to_csv_Nil: "to_csv [] = ''email,mcNumber,phone,url''"
  by (simp add: to_csv_explicit)

lemma join_snoc: "xs \<noteq> [] \<Longrightarrow> join sep (xs @ [y]) = join sep xs @ sep @ y"
  by (induction sep xs rule: join.induct) simp_all

lemma to_csv_snoc:
  "to_csv (rs @ [r])
     = to_csv rs @ [CHR 0x0A] @ csv_field (email r) @ '','' @ csv_field (mcNumber r) @ '','' @
       csv_field (phone r) @ '','' @ csv_field (url r)"
proof -
  let ?line = "\<lambda>r. csv_field (email r) @ '','' @ csv_field (mcNumber r) @ '','' @
                 csv_field (phone r) @ '','' @ csv_field (url r)"
  have "to_csv (rs @ [r]) = join [nl] ((''email,mcNumber,phone,url'' # map ?line rs) @ [?line r])"
    by (simp add: to_csv_explicit)
  also have "\<dots> = join [nl] (''email,mcNumber,phone,url'' # map ?line rs) @ [nl] @ ?line r"
    by (rule join_snoc) simp
  finally show ?thesis by (simp add: to_csv_explicit nl_def)
qed

lemma csv_field_literal:
  "csv_field v
     = CHR 0x22 # concat (map (\<lambda>x. if x = CHR 0x22 then [CHR 0x22, CHR 0x22] else [x]) v)
       @ [CHR 0x22]"
  unfolding csv_field_explicit dq_def by (rule refl)

lemma final_checkpoint:
  assumes "run cfg w mcList = Some (Finished st)" and "0 < BATCH_SIZE cfg" and "mcList \<noteq> []"
      and "MODE cfg \<noteq> ''urls''"
  shows "\<exists>p name. p < length (trace st) \<and> trace st ! p = Written name (to_csv (rows st)) \<and>
           Suc (checkpoints (take p (trace st))) = checkpoints (trace st)"
proof -
  let ?B = "BATCH_SIZE cfg"
  let ?n = "(length mcList + ?B - 1) div ?B"
  from assms(1,4) have b: "batches cfg w mcList 0 start_state = Some (Finished st)"
    by (auto simp: run_def split: option.splits run_result.splits)
  from batches_checkpoints [OF b assms(2)] have n: "checkpoints (trace st) = ?n" .
  from assms(2,3) have "?B \<le> length mcList + ?B - 1" by (cases mcList) simp_all
  with assms(2) have "1 \<le> ?n" by (simp add: div_greater_zero_iff Suc_le_eq)
  then obtain k where k: "?n = Suc k" by (cases ?n) simp_all
  from last_written [of "trace st" k] n k obtain p
    where p: "p < length (trace st)" "is_written (trace st ! p)" "checkpoints (take p (trace st)) = k"
    by auto
  from is_written_cases [OF p(2)] obtain name content
    where e: "trace st ! p = Written name content" by blast
  from batches_run_inv [OF b run_inv_start]
  have "checkpoints_cumulative w (trace st)" by (simp add: run_inv_def)
  with p(1) e have "name = csv_name (iso_time w (checkpoints (take p (trace st))))"
    unfolding checkpoints_cumulative_def by blast
  then have nn: "name \<noteq> urls_name (epoch w)" by (simp add: csv_name_not_urls)
  note r = run_in_step [OF assms(1)]
  from r(5) [of p name content] p(1) e nn
  have c: "completed (take p (trace st)) = min (length mcList) (Suc (checkpoints (take p (trace st))) * ?B)"
    and t: "content = to_csv (all_rows cfg w mcList (completed (take p (trace st))))"
    by simp_all
  have "length mcList \<le> ?n * ?B"
  proof -
    have "length mcList + ?B - 1 < (?n + 1) * ?B"
      using assms(2) by (metis Suc_eq_plus1 dividend_less_div_times mult.commute add.commute mult_Suc)
    then show ?thesis using assms(2) by simp
  qed
  with c p(3) k have "completed (take p (trace st)) = length mcList" by simp
  with t r(2) r(4) [OF refl] have "content = to_csv (rows st)" by simp
  with p e n k show ?thesis by auto
qed

text \<open>
  Claim C5. Every file in the trace of a run other than the final URL list is a
  checkpoint written at a batch boundary. Its name is built from the clock read at
  that moment. Its content is the serialization of all rows merged by the waves before
  it. When it is the \<open>n\<close>-th file, the waves before it have completed exactly the
  identifiers of the first \<open>n\<close> batches (all of them when the list is shorter), and its
  content is the serialization of what the tasks of these identifiers contribute, in
  list order: the whole accumulator so far, not the rows of the last batch. A run that
  finishes with a positive batch size has written one checkpoint per batch, and in
  full-extraction mode on a list that is not empty its last file holds the
  serialization of the final accumulator. The serialization is the header line
  \<open>email,mcNumber,phone,url\<close>, and for each row a line break and the four fields in that
  order separated by commas, each field between quotes with its quotes doubled; the
  name is \<open>fmcsa_batch_\<close>, the time stamp with \<open>:\<close> and \<open>.\<close> replaced by \<open>-\<close>, and \<open>.csv\<close>.
\<close>

theorem checkpoint_is_cumulative_snapshot:
  "(run cfg w mcList = Some res \<and> k < length (trace (state_of res)) \<and>
    trace (state_of res) ! k = Written name content \<and> name \<noteq> urls_name (epoch w) \<longrightarrow>
      name = csv_name (iso_time w (checkpoints (take k (trace (state_of res))))) \<and>
      content = to_csv (concat (map wave_rows (take k (trace (state_of res))))) \<and>
      completed (take k (trace (state_of res)))
        = min (length mcList)
            (Suc (checkpoints (take k (trace (state_of res)))) * BATCH_SIZE cfg) \<and>
      content = to_csv (all_rows cfg w mcList (completed (take k (trace (state_of res)))))) \<and>
   (run cfg w mcList = Some (Finished st) \<and> 0 < BATCH_SIZE cfg \<longrightarrow>
      checkpoints (trace st)
        = (length mcList + BATCH_SIZE cfg - 1) div BATCH_SIZE cfg
          + (if MODE cfg = ''urls'' then 1 else 0)) \<and>
   (run cfg w mcList = Some (Finished st) \<and> 0 < BATCH_SIZE cfg \<and> mcList \<noteq> [] \<and>
    MODE cfg \<noteq> ''urls'' \<longrightarrow>
      (\<exists>p nm. p < length (trace st) \<and> trace st ! p = Written nm (to_csv (rows st)) \<and>
         Suc (checkpoints (take p (trace st))) = checkpoints (trace st))) \<and>
   to_csv [] = ''email,mcNumber,phone,url'' \<and>
   to_csv (rs @ [r])
     = to_csv rs @ [CHR 0x0A] @ csv_field (email r) @ '','' @ csv_field (mcNumber r) @ '','' @
       csv_field (phone r) @ '','' @ csv_field (url r) \<and>
   csv_field v
     = CHR 0x22 # concat (map (\<lambda>x. if x = CHR 0x22 then [CHR 0x22, CHR 0x22] else [x]) v)
       @ [CHR 0x22] \<and>
   csv_name stamp =
     ''fmcsa_batch_'' @ map (\<lambda>c. if c = CHR '':'' \<or> c = CHR ''.'' then CHR ''-'' else c) stamp
       @ ''.csv'' \<and>
   csv_name stamp \<noteq> urls_name t"
proof (intro conjI impI)
  assume h: "run cfg w mcList = Some res \<and> k < length (trace (state_of res)) \<and>
    trace (state_of res) ! k = Written name content \<and> name \<noteq> urls_name (epoch w)"
  then have r: "run cfg w mcList = Some res" and k: "k < length (trace (state_of res))"
    and e: "trace (state_of res) ! k = Written name content"
    and n: "name \<noteq> urls_name (epoch w)" by simp_all
  have "name = csv_name (iso_time w (checkpoints (take k (trace (state_of res))))) \<and>
      content = to_csv (rows (merged (take k (trace (state_of res)))))"
    using run_cases [OF r]
  proof (elim disjE conjE exE)
    assume "batches cfg w mcList 0 start_state = Some res"
    from batches_run_inv [OF this run_inv_start]
    have "checkpoints_cumulative w (trace (state_of res))" by (simp add: run_inv_def)
    with k e show ?thesis by (simp add: checkpoints_cumulative_def)
  next
    fix s assume b: "batches cfg w mcList 0 start_state = Some (Finished s)"
      and f: "res = Finished (write_urls w s)"
    from batches_run_inv [OF b run_inv_start]
    have c: "checkpoints_cumulative w (trace s)" by (simp add: run_inv_def)
    from f have t: "trace (state_of res) = trace s @ [Written (urls_name (epoch w)) (join [nl] (validUrls s))]"
      by (simp add: write_urls_fields)
    show ?thesis
    proof (cases "k < length (trace s)")
      case True
      with e t have "trace s ! k = Written name content" by (simp add: nth_append)
      with c True t show ?thesis by (simp add: checkpoints_cumulative_def)
    next
      case False
      with k t have "k = length (trace s)" by simp
      with e t n show ?thesis by simp
    qed
  qed
  then show "name = csv_name (iso_time w (checkpoints (take k (trace (state_of res)))))"
    and "content = to_csv (concat (map wave_rows (take k (trace (state_of res)))))"
    by (simp_all add: merged_rows)
  from run_in_step(5) [OF r k e n]
  show "completed (take k (trace (state_of res)))
        = min (length mcList)
            (Suc (checkpoints (take k (trace (state_of res)))) * BATCH_SIZE cfg)"
    and "content = to_csv (all_rows cfg w mcList (completed (take k (trace (state_of res)))))"
    by simp_all
next
  assume h: "run cfg w mcList = Some (Finished st) \<and> 0 < BATCH_SIZE cfg"
  then have r: "run cfg w mcList = Some (Finished st)" and B: "0 < BATCH_SIZE cfg" by simp_all
  from r obtain s where b: "batches cfg w mcList 0 start_state = Some (Finished s)"
    and f: "st = (if MODE cfg = ''urls'' then write_urls w s else s)"
    by (auto simp: run_def split: option.splits run_result.splits)
  from batches_checkpoints [OF b B] f
  show "checkpoints (trace st)
        = (length mcList + BATCH_SIZE cfg - 1) div BATCH_SIZE cfg
          + (if MODE cfg = ''urls'' then 1 else 0)"
    by (simp add: write_urls_fields checkpoints_append) (simp add: checkpoints_def)
next
  assume "run cfg w mcList = Some (Finished st) \<and> 0 < BATCH_SIZE cfg \<and> mcList \<noteq> [] \<and>
    MODE cfg \<noteq> ''urls''"
  then have "run cfg w mcList = Some (Finished st)" "0 < BATCH_SIZE cfg" "mcList \<noteq> []"
    "MODE cfg \<noteq> ''urls''" by simp_all
  then show "\<exists>p nm. p < length (trace st) \<and> trace st ! p = Written nm (to_csv (rows st)) \<and>
         Suc (checkpoints (take p (trace st))) = checkpoints (trace st)"
    by (rule final_checkpoint)
next
  show "to_csv [] = ''email,mcNumber,phone,url''" by (rule to_csv_Nil)
  show "to_csv (rs @ [r])
     = to_csv rs @ [CHR 0x0A] @ csv_field (email r) @ '','' @ csv_field (mcNumber r) @ '','' @
       csv_field (phone r) @ '','' @ csv_field (url r)"
    by (rule to_csv_snoc)
  show "csv_field v
     = CHR 0x22 # concat (map (\<lambda>x. if x = CHR 0x22 then [CHR 0x22, CHR 0x22] else [x]) v)
       @ [CHR 0x22]"
    by (rule csv_field_literal)
  show "csv_name stamp =
     ''fmcsa_batch_'' @ map (\<lambda>c. if c = CHR '':'' \<or> c = CHR ''.'' then CHR ''-'' else c) stamp
       @ ''.csv''"
    by (rule csv_name_explicit)
  show "csv_name stamp \<noteq> urls_name t" by (rule csv_name_not_urls)
qed

lemma fetchRetry_fetches:
  "e \<in> set (snd (fetchRetry nt u tries label [])) \<Longrightarrow> is_fetch e \<Longrightarrow> e = Fetch u"
proof -
  assume e: "e \<in> set (snd (fetchRetry nt u tries label []))" and f: "is_fetch e"
  obtain r ev where r: "fetchRetry nt u tries label [] = (r, ev)"
    by (cases "fetchRetry nt u tries label []")
  show "e = Fetch u"
  proof (cases r)
    case (Inl err)
    with r have "ev = failed_rounds u 0 tries" using fetchRetry_failed_shape by fastforce
    with e r f show ?thesis by (auto dest: fetches_failed_rounds)
  next
    case (Inr page)
    with r obtain k where "ev = failed_rounds u 0 k @ [Fetch u]"
      using fetchRetry_ok_shape by fastforce
    with e r f show ?thesis by (auto dest: fetches_failed_rounds)
  qed
qed

lemma fetchRetry_requests:
  "requests (snd (fetchRetry nt u tries label [])) \<le> tries"
  using loop_requests_bound [of nt u tries label 0 None "[]"]
  by (simp add: fetchRetry_def requests_def)

lemma handleMC_urls_mode:
  assumes "MODE cfg = ''urls''"
  shows "handleMC cfg URL env mc
     = (Returned (if passes env mc
                  then \<lparr>valid = True, o_url = Some (mcToSnapshotUrl mc), o_row = None\<rparr>
                  else invalid),
        snd (fetchRetry (net env) (mcToSnapshotUrl mc) MAX_RETRIES ''snapshot'' []))"
proof -
  let ?u = "mcToSnapshotUrl mc"
  obtain r ev where f: "fetchRetry (net env) ?u MAX_RETRIES ''snapshot'' [] = (r, ev)"
    by (cases "fetchRetry (net env) ?u MAX_RETRIES ''snapshot'' []")
  show ?thesis
  proof (cases r)
    case (Inl e)
    with f show ?thesis by (simp add: handleMC_lookup_failed passes_def)
  next
    case (Inr page)
    with f show ?thesis
      by (cases "verdict_rule page")
         (simp_all add: handleMC_urls [OF _ _ assms] handleMC_invalid_page passes_def)
  qed
qed

lemma those_map_returned:
  "\<forall>x \<in> set xs. f x = Some (g x) \<Longrightarrow> those (map f xs) = Some (map g xs)"
  by (induction xs) simp_all

lemma dispatch_urls_mode:
  assumes "MODE cfg = ''urls''"
  shows "\<exists>results. those_returned (dispatch cfg w i slice) = Some results \<and>
           map fst results = map (url_outcome w) (zip [i..<i + length slice] slice)"
proof -
  let ?z = "zip [i..<i + length slice] slice"
  let ?g = "\<lambda>(j, mc). (url_outcome w (j, mc),
      snd (fetchRetry (net (task w j)) (mcToSnapshotUrl mc) MAX_RETRIES ''snapshot'' []))"
  let ?h = "\<lambda>(j, mc). handleMC cfg (URL_href w) (task w j) mc"
  have "\<forall>x \<in> set ?z. (returned \<circ> ?h) x = Some (?g x)"
    by (auto simp: handleMC_urls_mode [OF assms] url_outcome_def)
  from those_map_returned [OF this]
  have "those (map (returned \<circ> ?h) ?z) = Some (map ?g ?z)" .
  then have "those_returned (dispatch cfg w i slice) = Some (map ?g ?z)"
    by (simp only: those_returned_def dispatch_def map_map)
  moreover have "map fst (map ?g ?z) = map (url_outcome w) ?z" by auto
  ultimately show ?thesis by blast
qed

lemma url_outcome_adds:
  "out_urls (url_outcome w (j, mc)) = (if passes (task w j) mc then [mcToSnapshotUrl mc] else [])"
  "out_rows (url_outcome w (j, mc)) = []"
  by (simp_all add: url_outcome_def out_urls_def out_rows_def invalid_def snapshot_url_nonempty)

lemma valid_lookups_step:
  assumes "i + n \<le> length mcList"
  shows "valid_lookups w mcList (i + n)
     = valid_lookups w mcList i @
       concat (map (out_urls \<circ> url_outcome w) (zip [i..<i + n] (take n (drop i mcList))))"
proof -
  have u: "[0..<i + n] = [0..<i] @ [i..<i + n]"
    by (rule upt_add_eq_append) simp
  have t: "take (i + n) mcList = take i mcList @ take n (drop i mcList)"
    by (rule take_add)
  have l: "length [0..<i] = length (take i mcList)" using assms by simp
  have z: "zip [0..<i + n] (take (i + n) mcList)
      = zip [0..<i] (take i mcList) @ zip [i..<i + n] (take n (drop i mcList))"
    unfolding u t by (rule zip_append [OF l])
  have g: "(\<lambda>(j, mc). if passes (task w j) mc then [mcToSnapshotUrl mc] else [])
      = out_urls \<circ> url_outcome w"
    by (auto simp: fun_eq_iff url_outcome_adds)
  show ?thesis
    unfolding valid_lookups_def z g by (simp only: map_append concat_append)
qed

lemma waves_urls_mode:
  assumes "waves cfg w mcList e i st = Some res" and "MODE cfg = ''urls''"
      and "e \<le> length mcList" and "i \<le> e"
      and "validUrls st = valid_lookups w mcList i" and "rows st = []"
  shows "\<exists>st'. res = Finished st' \<and> validUrls st' = valid_lookups w mcList e \<and> rows st' = []"
proof -
  let ?P = "\<lambda>i (s::run_state). i \<le> e \<and> validUrls s = valid_lookups w mcList i \<and> rows s = []"
  have "\<exists>i'. ?P i' (state_of res) \<and> (\<forall>st'. res = Finished st' \<longrightarrow> \<not> i' < e) \<and>
              (\<forall>st'. res = Crashed st' \<longrightarrow> i' < e \<and>
                 those_returned (dispatch cfg w i' (wave_slice cfg mcList e i')) = None)"
  proof (rule waves_rule [OF assms(1), of ?P])
    show "?P i st" using assms by simp
  next
    fix i s results
    let ?s = "wave_slice cfg mcList e i"
    assume p: "?P i s" and lt: "i < e"
      and d: "those_returned (dispatch cfg w i ?s) = Some results"
    have n: "length ?s = min (e - i) (CONCURRENCY cfg)"
      by (rule wave_slice_length [OF lt assms(3)])
    then have le: "i + length ?s \<le> e" using lt by simp
    from dispatch_urls_mode [OF assms(2), of w i ?s] d
    have m: "map fst results = map (url_outcome w) (zip [i..<i + length ?s] ?s)" by simp
    have s: "?s = take (length ?s) (drop i mcList)" by (simp add: wave_slice_def min_def)
    have "validUrls (wave_step cfg s results)
        = valid_lookups w mcList i @
          concat (map (out_urls \<circ> url_outcome w) (zip [i..<i + length ?s] ?s))"
      using p by (simp add: wave_step_fields m)
    also have "\<dots> = valid_lookups w mcList (i + length ?s)"
      using valid_lookups_step [of i "length ?s" mcList w] le assms(3) s by simp
    finally have v: "validUrls (wave_step cfg s results) = valid_lookups w mcList (i + length ?s)" .
    have "concat (map out_rows (map (url_outcome w) (zip [i..<i + length ?s] ?s))) = []"
      by (auto simp: url_outcome_adds)
    with p have "rows (wave_step cfg s results) = []" by (simp add: wave_step_fields m)
    with v le show "?P (i + length ?s) (wave_step cfg s results)" by simp
  qed
  then obtain i' where i': "?P i' (state_of res)" "\<forall>st'. res = Finished st' \<longrightarrow> \<not> i' < e"
    "\<forall>st'. res = Crashed st' \<longrightarrow> i' < e \<and>
       those_returned (dispatch cfg w i' (wave_slice cfg mcList e i')) = None" by blast
  show ?thesis
  proof (cases res)
    case (Crashed st')
    with i'(3) dispatch_urls_mode [OF assms(2), of w i' "wave_slice cfg mcList e i'"]
    show ?thesis by auto
  next
    case (Finished st')
    with i'(1,2) have "i' = e" by auto
    with i'(1) Finished show ?thesis by simp
  qed
qed

lemma batches_urls_mode:
  assumes "batches cfg w mcList 0 start_state = Some res" and "MODE cfg = ''urls''"
  shows "\<exists>st'. res = Finished st' \<and> validUrls st' = valid_lookups w mcList (length mcList) \<and>
           rows st' = []"
proof -
  let ?Q = "\<lambda>start (s::run_state).
      validUrls s = valid_lookups w mcList (min start (length mcList)) \<and> rows s = []"
  have "case res of
          Finished st' \<Rightarrow> \<exists>s. ?Q s st' \<and> \<not> s < length mcList
        | Crashed st' \<Rightarrow> False"
  proof (rule batches_rule [OF assms(1), of ?Q "\<lambda>s. False"])
    show "?Q 0 start_state" by (simp add: start_state_def valid_lookups_def)
  next
    fix start s st1
    let ?e = "min (length mcList) (start + BATCH_SIZE cfg)"
    assume q: "?Q start s" and lt: "start < length mcList"
      and wv: "waves cfg w mcList ?e start s = Some (Finished st1)"
    from q lt have v: "validUrls s = valid_lookups w mcList start" "rows s = []"
      by (simp_all add: min_def)
    from waves_urls_mode [OF wv assms(2) _ _ v] lt
    have "validUrls st1 = valid_lookups w mcList ?e \<and> rows st1 = []" by simp
    then show "?Q (start + BATCH_SIZE cfg) (batch_wait cfg mcList ?e (checkpoint w st1))"
      by (simp add: batch_wait_fields checkpoint_fields min.commute)
  next
    fix start s st1
    let ?e = "min (length mcList) (start + BATCH_SIZE cfg)"
    assume q: "?Q start s" and lt: "start < length mcList"
      and wv: "waves cfg w mcList ?e start s = Some (Crashed st1)"
    from q lt have v: "validUrls s = valid_lookups w mcList start" "rows s = []"
      by (simp_all add: min_def)
    from waves_urls_mode [OF wv assms(2) _ _ v] lt show False by simp
  qed
  then show ?thesis by (cases res) (auto simp: min_def)
qed

text \<open>
  Claim C7. In URL-only mode a task returns after the validity check: its outcome is
  the lookup URL when the identifier passes and the invalid outcome otherwise, and its
  only requests are the at most \<open>MAX_RETRIES\<close> lookup attempts. A run that ends has
  finished, has no rows, and its trace ends with the one file of valid lookup URLs,
  the URLs of the passing identifiers in list order joined by line breaks; every
  earlier file is a checkpoint. With positive concurrency and batch size the run
  ends.
\<close>

theorem url_only_mode:
  assumes "MODE cfg = ''urls''"
  shows "fst (handleMC cfg URL env mc)
           = Returned (if passes env mc
                       then \<lparr>valid = True, o_url = Some (mcToSnapshotUrl mc), o_row = None\<rparr>
                       else invalid) \<and>
         (\<forall>e \<in> set (snd (handleMC cfg URL env mc)). is_fetch e \<longrightarrow> e = Fetch (mcToSnapshotUrl mc)) \<and>
         requests (snd (handleMC cfg URL env mc)) \<le> MAX_RETRIES \<and>
         (run cfg w mcList = Some res \<longrightarrow>
            (\<exists>st pre. res = Finished st \<and> rows st = [] \<and>
               trace st = pre @ [Written (urls_name (epoch w))
                                  (join [nl] (valid_lookups w mcList (length mcList)))] \<and>
               (\<forall>k<length pre. \<forall>name content. pre ! k = Written name content \<longrightarrow>
                  name \<noteq> urls_name (epoch w) \<and> (\<exists>stamp. name = csv_name stamp)))) \<and>
         (0 < CONCURRENCY cfg \<and> 0 < BATCH_SIZE cfg \<longrightarrow> run cfg w mcList \<noteq> None)"
proof (intro conjI impI)
  show "fst (handleMC cfg URL env mc)
           = Returned (if passes env mc
                       then \<lparr>valid = True, o_url = Some (mcToSnapshotUrl mc), o_row = None\<rparr>
                       else invalid)"
    by (simp add: handleMC_urls_mode [OF assms])
  show "\<forall>e \<in> set (snd (handleMC cfg URL env mc)). is_fetch e \<longrightarrow> e = Fetch (mcToSnapshotUrl mc)"
    by (auto simp: handleMC_urls_mode [OF assms] dest: fetchRetry_fetches)
  show "requests (snd (handleMC cfg URL env mc)) \<le> MAX_RETRIES"
    by (simp add: handleMC_urls_mode [OF assms] fetchRetry_requests)
next
  assume r: "run cfg w mcList = Some res"
  with assms obtain r0 where b: "batches cfg w mcList 0 start_state = Some r0"
    by (auto simp: run_def split: option.splits)
  from batches_urls_mode [OF b assms] obtain s
    where s: "r0 = Finished s" "validUrls s = valid_lookups w mcList (length mcList)" "rows s = []"
    by blast
  from r b s assms have res: "res = Finished (write_urls w s)" by (simp add: run_def)
  from batches_run_inv [OF b run_inv_start] s(1)
  have c: "checkpoints_cumulative w (trace s)" by (simp add: run_inv_def)
  have "\<forall>k<length (trace s). \<forall>name content. trace s ! k = Written name content \<longrightarrow>
          name \<noteq> urls_name (epoch w) \<and> (\<exists>stamp. name = csv_name stamp)"
  proof (intro allI impI)
    fix k name content
    assume "k < length (trace s)" "trace s ! k = Written name content"
    with c have "name = csv_name (iso_time w (checkpoints (take k (trace s))))"
      by (simp add: checkpoints_cumulative_def)
    then show "name \<noteq> urls_name (epoch w) \<and> (\<exists>stamp. name = csv_name stamp)"
      by (auto simp: csv_name_not_urls)
  qed
  with res s show "\<exists>st pre. res = Finished st \<and> rows st = [] \<and>
               trace st = pre @ [Written (urls_name (epoch w))
                                  (join [nl] (valid_lookups w mcList (length mcList)))] \<and>
               (\<forall>k<length pre. \<forall>name content. pre ! k = Written name content \<longrightarrow>
                  name \<noteq> urls_name (epoch w) \<and> (\<exists>stamp. name = csv_name stamp))"
    by (intro exI [of _ "write_urls w s"] exI [of _ "trace s"]) (simp add: write_urls_fields)
next
  assume "0 < CONCURRENCY cfg \<and> 0 < BATCH_SIZE cfg"
  then show "run cfg w mcList \<noteq> None" using run_total [of cfg w mcList] by auto
qed

declare waves.simps [code] batches.simps [code]

lemma sample_urls_run:
  "run sample_urls_cfg sample_world [''1'', ''2''] =
   Some (Finished
     \<lparr>rows = [], validUrls = [mcToSnapshotUrl ''1''],
      trace =
        [WaveDone [(\<lparr>valid = True, o_url = Some (mcToSnapshotUrl ''1''), o_row = None\<rparr>,
                    [Fetch (mcToSnapshotUrl ''1'')])],
         Paused 50,
         Written ''fmcsa_batch_T0-0-1.csv'' ''email,mcNumber,phone,url'',
         WaveDone [(invalid, [Fetch (mcToSnapshotUrl ''2'')])],
         Paused 50,
         Written ''fmcsa_batch_T1-0-2.csv'' ''email,mcNumber,phone,url'',
         Written ''fmcsa_remaining_urls_17.txt'' (mcToSnapshotUrl ''1'')]\<rparr>)"
  by code_simp

lemma sample_both_run:
  "run sample_both_cfg sample_world [''1'', ''2''] =
   Some (Finished
     \<lparr>rows = [sample_contact], validUrls = [mcToSnapshotUrl ''1''],
      trace =
        [WaveDone [(\<lparr>valid = True, o_url = Some (mcToSnapshotUrl ''1''),
                     o_row = Some sample_contact\<rparr>,
                    [Fetch (mcToSnapshotUrl ''1''), Fetch (mcToSnapshotUrl ''1'')])],
         Paused 300,
         Written ''fmcsa_batch_T0-0-1.csv'' (to_csv [sample_contact]),
         Paused 1000,
         WaveDone [(invalid, [Fetch (mcToSnapshotUrl ''2'')])],
         Paused 300,
         Written ''fmcsa_batch_T1-0-2.csv'' (to_csv [sample_contact])]\<rparr>)"
  by code_simp

lemma live_run:
  "run sample_both_cfg live_world [''1'', ''2''] =
   Some (Finished
     \<lparr>rows = [sample_contact, second_contact],
      validUrls = [mcToSnapshotUrl ''1'', mcToSnapshotUrl ''2''],
      trace =
        [WaveDone [(\<lparr>valid = True, o_url = Some (mcToSnapshotUrl ''1''),
                     o_row = Some sample_contact\<rparr>,
                    [Fetch (mcToSnapshotUrl ''1''), Fetch (mcToSnapshotUrl ''1'')])],
         Paused 300,
         Written ''fmcsa_batch_T0-0-1.csv'' (to_csv [sample_contact]),
         Paused 1000,
         WaveDone [(\<lparr>valid = True, o_url = Some (mcToSnapshotUrl ''2''),
                     o_row = Some second_contact\<rparr>,
                    [Fetch (mcToSnapshotUrl ''2''), Fetch (mcToSnapshotUrl ''2'')])],
         Paused 300,
         Written ''fmcsa_batch_T1-0-2.csv'' (to_csv [sample_contact, second_contact])]\<rparr>)"
  by code_simp

text \<open>
  Claim C6 as stated fails. With the configured delay 10, the sample run pauses 50
  milliseconds after each of its two waves.
\<close>

theorem pause_is_configured_delay_counterexample:
  "DELAY sample_urls_cfg = 10 \<and>
   run sample_urls_cfg sample_world [''1'', ''2''] =
   Some (Finished
     \<lparr>rows = [], validUrls = [mcToSnapshotUrl ''1''],
      trace =
        [WaveDone [(\<lparr>valid = True, o_url = Some (mcToSnapshotUrl ''1''), o_row = None\<rparr>,
                    [Fetch (mcToSnapshotUrl ''1'')])],
         Paused 50,
         Written ''fmcsa_batch_T0-0-1.csv'' ''email,mcNumber,phone,url'',
         WaveDone [(invalid, [Fetch (mcToSnapshotUrl ''2'')])],
         Paused 50,
         Written ''fmcsa_batch_T1-0-2.csv'' ''email,mcNumber,phone,url'',
         Written ''fmcsa_remaining_urls_17.txt'' (mcToSnapshotUrl ''1'')]\<rparr>)"
  using sample_urls_run by (simp add: sample_urls_cfg_def)

theorem pause_after_every_wave_witness:
  "trace (state_of (the (run sample_urls_cfg sample_world [''1'', ''2''])))
     ! 1 = Paused (max 50 (DELAY sample_urls_cfg)) \<and>
   trace (state_of (the (run sample_both_cfg sample_world [''1'', ''2''])))
     ! 5 = Paused (max 50 (DELAY sample_both_cfg)) \<and>
   max 50 (DELAY sample_both_cfg) = DELAY sample_both_cfg \<and>
   max 50 (DELAY (config_of_env None None None None None)) = 300"
proof -
  let ?ru = "the (run sample_urls_cfg sample_world [''1'', ''2''])"
  let ?rb = "the (run sample_both_cfg sample_world [''1'', ''2''])"
  have u: "run sample_urls_cfg sample_world [''1'', ''2''] = Some ?ru"
    by (simp add: sample_urls_run)
  have b: "run sample_both_cfg sample_world [''1'', ''2''] = Some ?rb"
    by (simp add: sample_both_run)
  note tu = pause_after_every_wave
      [of sample_urls_cfg sample_world "[''1'', ''2'']" ?ru None None None None]
  note tb = pause_after_every_wave
      [of sample_both_cfg sample_world "[''1'', ''2'']" ?rb None None None None]
  from tu u have "\<forall>k<length (trace (state_of ?ru)). \<forall>rs. trace (state_of ?ru) ! k = WaveDone rs \<longrightarrow>
         Suc k < length (trace (state_of ?ru)) \<and>
         trace (state_of ?ru) ! Suc k = Paused (max 50 (DELAY sample_urls_cfg))"
    by blast
  from this [rule_format, of 0]
  have 1: "trace (state_of ?ru) ! 1 = Paused (max 50 (DELAY sample_urls_cfg))"
    by (simp add: sample_urls_run)
  from tb b have "\<forall>k<length (trace (state_of ?rb)). \<forall>rs. trace (state_of ?rb) ! k = WaveDone rs \<longrightarrow>
         Suc k < length (trace (state_of ?rb)) \<and>
         trace (state_of ?rb) ! Suc k = Paused (max 50 (DELAY sample_both_cfg))"
    by blast
  from this [rule_format, of 4] have 2: "trace (state_of ?rb) ! 5 = Paused (max 50 (DELAY sample_both_cfg))"
    by (simp add: sample_both_run)
  have 3: "max 50 (DELAY sample_both_cfg) = DELAY sample_both_cfg"
    using tb by (simp add: sample_both_cfg_def)
  from tb have 4: "max 50 (DELAY (config_of_env None None None None None)) = 300" by blast
  from 1 2 3 4 show ?thesis by blast
qed

theorem checkpoint_is_cumulative_snapshot_witness:
  "trace (state_of (the (run sample_both_cfg live_world [''1'', ''2''])))
     ! 6 = Written ''fmcsa_batch_T1-0-2.csv''
            (''email,mcNumber,phone,url'' @
             [CHR 0x0A, CHR 0x22, CHR 0x22, CHR '','', CHR 0x22, CHR 0x22, CHR '','',
              CHR 0x22, CHR 0x22, CHR '','', CHR 0x22] @
             ''https://safer.fmcsa.dot.gov/query.asp?searchtype=ANY&query_type=queryCarrierSnapshot'' @
             ''&query_param=MC_MX&query_string=1'' @
             [CHR 0x22, CHR 0x0A, CHR 0x22, CHR 0x22, CHR '','', CHR 0x22, CHR 0x22, CHR '','',
              CHR 0x22, CHR 0x22, CHR '','', CHR 0x22] @
             ''https://safer.fmcsa.dot.gov/query.asp?searchtype=ANY&query_type=queryCarrierSnapshot'' @
             ''&query_param=MC_MX&query_string=2'' @ [CHR 0x22]) \<and>
   completed (take 6 (trace (state_of (the (run sample_both_cfg live_world [''1'', ''2'']))))) = 2 \<and>
   all_rows sample_both_cfg live_world [''1'', ''2''] 2 = [sample_contact, second_contact] \<and>
   checkpoints (trace (state_of (the (run sample_both_cfg live_world [''1'', ''2''])))) = 2"
proof -
  let ?r = "the (run sample_both_cfg live_world [''1'', ''2''])"
  let ?tr = "trace (state_of ?r)"
  let ?text = "''email,mcNumber,phone,url'' @
             [CHR 0x0A, CHR 0x22, CHR 0x22, CHR '','', CHR 0x22, CHR 0x22, CHR '','',
              CHR 0x22, CHR 0x22, CHR '','', CHR 0x22] @
             ''https://safer.fmcsa.dot.gov/query.asp?searchtype=ANY&query_type=queryCarrierSnapshot'' @
             ''&query_param=MC_MX&query_string=1'' @
             [CHR 0x22, CHR 0x0A, CHR 0x22, CHR 0x22, CHR '','', CHR 0x22, CHR 0x22, CHR '','',
              CHR 0x22, CHR 0x22, CHR '','', CHR 0x22] @
             ''https://safer.fmcsa.dot.gov/query.asp?searchtype=ANY&query_type=queryCarrierSnapshot'' @
             ''&query_param=MC_MX&query_string=2'' @ [CHR 0x22]"
  have r: "run sample_both_cfg live_world [''1'', ''2''] = Some ?r"
    by (simp add: live_run)
  have f: "?r = Finished (state_of ?r)" by (simp add: live_run)
  have e: "?tr ! 6 = Written ''fmcsa_batch_T1-0-2.csv'' (to_csv [sample_contact, second_contact])"
    by (simp add: live_run)
  have n: "''fmcsa_batch_T1-0-2.csv'' \<noteq> urls_name (epoch live_world)"
    by (simp add: urls_name_def)
  have k: "6 < length ?tr" by (simp add: live_run)
  have c: "checkpoints (take 6 ?tr) = 1"
    by (simp add: live_run checkpoints_def)
  have B: "0 < BATCH_SIZE sample_both_cfg" "BATCH_SIZE sample_both_cfg = 1"
    by (simp_all add: sample_both_cfg_def)
  have a: "all_rows sample_both_cfg live_world [''1'', ''2''] 2 = [sample_contact, second_contact]"
    by code_simp
  have x: "to_csv [sample_contact, second_contact] = ?text" by code_simp
  note T = checkpoint_is_cumulative_snapshot
      [of sample_both_cfg live_world "[''1'', ''2'']" ?r 6 "''fmcsa_batch_T1-0-2.csv''"
          "to_csv [sample_contact, second_contact]" "state_of ?r"]
  note T1 = T [THEN conjunct1, rule_format, OF conjI [OF r conjI [OF k conjI [OF e n]]]]
  from T1 [THEN conjunct2, THEN conjunct2, THEN conjunct1] c B(2)
  have d: "completed (take 6 ?tr) = 2" by simp
  from T1 [THEN conjunct2, THEN conjunct2, THEN conjunct2]
  have "to_csv [sample_contact, second_contact]
      = to_csv (all_rows sample_both_cfg live_world [''1'', ''2''] 2)"
    unfolding d .
  with e x have 1: "?tr ! 6 = Written ''fmcsa_batch_T1-0-2.csv'' ?text" by simp
  from T [THEN conjunct2, THEN conjunct1, rule_format] r f B(1)
  have "checkpoints ?tr
      = (length [''1'', ''2''] + BATCH_SIZE sample_both_cfg - 1) div BATCH_SIZE sample_both_cfg
          + (if MODE sample_both_cfg = ''urls'' then 1 else 0)"
    by simp
  then have 2: "checkpoints ?tr = 2" by (simp add: sample_both_cfg_def)
  from 1 d a 2 show ?thesis by (intro conjI)
qed

theorem accumulator_append_only_witness:
  "rows (state_of (the (run sample_both_cfg sample_world [''1'', ''2''])))
     = concat (map wave_rows (trace (state_of (the (run sample_both_cfg sample_world [''1'', ''2''])))))
   \<and> rows (state_of (the (run sample_both_cfg sample_world [''1'', ''2'']))) = [sample_contact]
   \<and> passes (task sample_world 0) ''1'' \<and> \<not> passes (task sample_world 1) ''2''"
proof -
  let ?r = "the (run sample_both_cfg sample_world [''1'', ''2''])"
  have r: "run sample_both_cfg sample_world [''1'', ''2''] = Some ?r"
    by (simp add: sample_both_run)
  note t = accumulator_append_only
      [of start_state invalid sample_both_cfg sample_world "[''1'', ''2'']" 0 0 ?r]
  from t r have a: "rows (state_of ?r) = concat (map wave_rows (trace (state_of ?r)))"
    and b: "\<forall>c \<in> set (rows (state_of ?r)). \<exists>j<length [''1'', ''2''].
          passes (task sample_world j) ([''1'', ''2''] ! j) \<and>
          url c = mcToSnapshotUrl ([''1'', ''2''] ! j)"
    by blast+
  have c: "rows (state_of ?r) = [sample_contact]" by (simp add: sample_both_run)
  have p: "passes (task sample_world 0) ''1''" by code_simp
  have q: "\<not> passes (task sample_world 1) ''2''" by code_simp
  from a c p q show ?thesis by blast
qed

theorem url_only_mode_witness:
  "run sample_urls_cfg sample_world [''1'', ''2''] \<noteq> None \<and>
   fst (handleMC sample_urls_cfg (URL_href sample_world) (task sample_world 0) ''1'')
     = Returned \<lparr>valid = True, o_url = Some (mcToSnapshotUrl ''1''), o_row = None\<rparr> \<and>
   fst (handleMC sample_urls_cfg (URL_href sample_world) (task sample_world 1) ''2'')
     = Returned invalid \<and>
   requests (snd (handleMC sample_urls_cfg (URL_href sample_world) (task sample_world 0) ''1''))
     \<le> MAX_RETRIES \<and>
   last (trace (state_of (the (run sample_urls_cfg sample_world [''1'', ''2'']))))
     = Written (urls_name (epoch sample_world)) (mcToSnapshotUrl ''1'')"
proof -
  let ?r = "the (run sample_urls_cfg sample_world [''1'', ''2''])"
  have m: "MODE sample_urls_cfg = ''urls''" by (simp add: sample_urls_cfg_def)
  have pos: "0 < CONCURRENCY sample_urls_cfg \<and> 0 < BATCH_SIZE sample_urls_cfg"
    by (simp add: sample_urls_cfg_def)
  have p: "passes (task sample_world 0) ''1''" by code_simp
  have q: "\<not> passes (task sample_world 1) ''2''" by code_simp
  have v: "valid_lookups sample_world [''1'', ''2''] (length [''1'', ''2'']) = [mcToSnapshotUrl ''1'']"
    by code_simp
  note t0 = url_only_mode [OF m, of "URL_href sample_world" "task sample_world 0" "''1''"
      sample_world "[''1'', ''2'']" ?r]
  note t1 = url_only_mode [OF m, of "URL_href sample_world" "task sample_world 1" "''2''"
      sample_world "[''1'', ''2'']" ?r]
  from t0 pos have 1: "run sample_urls_cfg sample_world [''1'', ''2''] \<noteq> None" by blast
  then have r: "run sample_urls_cfg sample_world [''1'', ''2''] = Some ?r" by simp
  from t0 p have 2: "fst (handleMC sample_urls_cfg (URL_href sample_world) (task sample_world 0) ''1'')
     = Returned \<lparr>valid = True, o_url = Some (mcToSnapshotUrl ''1''), o_row = None\<rparr>"
    by simp
  from t1 q have 3: "fst (handleMC sample_urls_cfg (URL_href sample_world) (task sample_world 1) ''2'')
     = Returned invalid"
    by simp
  from t0 have 4: "requests (snd (handleMC sample_urls_cfg (URL_href sample_world)
      (task sample_world 0) ''1'')) \<le> MAX_RETRIES" by blast
  from t0 r obtain st pre where "?r = Finished st"
    "trace st = pre @ [Written (urls_name (epoch sample_world))
        (join [nl] (valid_lookups sample_world [''1'', ''2''] (length [''1'', ''2''])))]"
    by blast
  then have "trace (state_of ?r)
      = pre @ [Written (urls_name (epoch sample_world)) (join [nl] [mcToSnapshotUrl ''1''])]"
    by (simp only: v state_of.simps)
  then have 5: "last (trace (state_of ?r))
      = Written (urls_name (epoch sample_world)) (mcToSnapshotUrl ''1'')"
    by simp
  from 1 2 3 4 5 show ?thesis by blast
qed


section \<open>A valid identifier and its record\<close>









end
